theory Spec2Isabelle
  imports Main "HOL-Library.Word"
begin

unbundle bit_operations_syntax

section \<open>Machine types and constants of twister.c\<close>

type_synonym u8 = "8 word"
type_synonym u32 = "32 word"
type_synonym u64 = "64 word"

text \<open>\<^verbatim>\<open>#define N (624)\<close>, \<^verbatim>\<open>#define M (397)\<close>, \<^verbatim>\<open>#define K (0x9908B0DFU)\<close>.\<close>

definition N :: nat where
  "N = 624"

definition M :: nat where
  "M = 397"

definition K :: u32 where
  "K = 0x9908B0DF"

definition hiBit :: "u32 \<Rightarrow> u32" where
  "hiBit u = u AND 0x80000000"

definition loBit :: "u32 \<Rightarrow> u32" where
  "loBit u = u AND 0x00000001"

definition loBits :: "u32 \<Rightarrow> u32" where
  "loBits u = u AND 0x7FFFFFFF"

definition mixBits :: "u32 \<Rightarrow> u32 \<Rightarrow> u32" where
  "mixBits u v = hiBit u OR loBits v"

section \<open>The generator engine\<close>

text \<open>
  The three file-scope variables \<^verbatim>\<open>state[N + 1]\<close>, \<^verbatim>\<open>next\<close> and \<^verbatim>\<open>left\<close>.
  The array is a list of \<open>N + 1\<close> words. The pointer \<^verbatim>\<open>next\<close> is an index into
  \<^verbatim>\<open>state\<close>, or \<open>None\<close> while it is still the null pointer of static initialisation.
  \<^verbatim>\<open>left\<close> is a C \<^verbatim>\<open>int\<close>; it stays within a few hundred of zero, so it is an \<open>int\<close>.
\<close>

record engine =
  state :: "u32 list"
  nxt :: "nat option"
  left :: int

definition initial_engine :: engine where
  "initial_engine = \<lparr>state = replicate (N + 1) 0, nxt = None, left = - 1\<rparr>"

text \<open>
  The loop of \<^verbatim>\<open>seedMT\<close>:
  \<^verbatim>\<open>for (left = 0, *s++ = x, j = N; --j; *s++ = (x *= 69069U) & 0xFFFFFFFFU) ;\<close>
  The first argument is \<^verbatim>\<open>j\<close> before the test \<^verbatim>\<open>--j\<close>, the third the offset of
  \<^verbatim>\<open>s\<close> from \<^verbatim>\<open>state\<close>.
\<close>

fun seed_loop :: "nat \<Rightarrow> u32 \<Rightarrow> nat \<Rightarrow> u32 list \<Rightarrow> u32 list" where
  "seed_loop j x s st =
     (if j - 1 = 0 then st
      else seed_loop (j - 1) (x * 69069) (s + 1) (st[s := (x * 69069) AND 0xFFFFFFFF]))"

declare seed_loop.simps [simp del]

definition seedMT :: "u32 \<Rightarrow> engine \<Rightarrow> engine" where
  "seedMT seed e =
     (let x = (seed OR 1) AND 0xFFFFFFFF
      in e\<lparr>left := 0, state := seed_loop N x 1 ((state e)[0 := x])\<rparr>)"

text \<open>
  The expression computed three times in \<^verbatim>\<open>reloadMT\<close>:
  \<^verbatim>\<open>*pM ^ (mixBits(s0, s1) >> 1) ^ (loBit(s1) ? K : 0U)\<close>.
\<close>

definition twist :: "u32 \<Rightarrow> u32 \<Rightarrow> u32 \<Rightarrow> u32" where
  "twist m s0 s1 =
     m XOR drop_bit 1 (mixBits s0 s1) XOR (if loBit s1 \<noteq> 0 then K else 0)"

text \<open>
  The tempering at the end of \<^verbatim>\<open>reloadMT\<close> and of \<^verbatim>\<open>randomMT\<close> (the same four
  statements in both).
\<close>

definition temper :: "u32 \<Rightarrow> u32" where
  "temper y0 =
     (let y1 = y0 XOR drop_bit 11 y0;
          y2 = y1 XOR (push_bit 7 y1 AND 0x9D2C5680);
          y3 = y2 XOR (push_bit 15 y2 AND 0xEFC60000)
      in y3 XOR drop_bit 18 y3)"

text \<open>
  Both \<^verbatim>\<open>for\<close> loops of \<^verbatim>\<open>reloadMT\<close> have the same test, body and step:
  \<^verbatim>\<open>for (...; --j; s0 = s1, s1 = *p2++) *p0++ = *pM++ ^ ...;\<close>
  The pointers are offsets from \<^verbatim>\<open>state\<close>.
\<close>

fun reload_loop ::
  "nat \<Rightarrow> nat \<Rightarrow> nat \<Rightarrow> nat \<Rightarrow> u32 \<Rightarrow> u32 \<Rightarrow> u32 list \<Rightarrow> nat \<times> nat \<times> nat \<times> u32 \<times> u32 \<times> u32 list"
where
  "reload_loop j p0 p2 pM s0 s1 st =
     (if j - 1 = 0 then (p0, p2, pM, s0, s1, st)
      else (let st' = st[p0 := twist (st ! pM) s0 s1]
            in reload_loop (j - 1) (p0 + 1) (p2 + 1) (pM + 1) s1 (st' ! p2) st'))"

declare reload_loop.simps [simp del]

definition reloadMT :: "engine \<Rightarrow> u32 \<times> engine" where
  "reloadMT e0 =
     (let e1 = (if left e0 < - 1 then seedMT 1 e0 else e0);
          e2 = e1\<lparr>left := int N - 1, nxt := Some 1\<rparr>;
          st = state e2;
          (p0, p2, pM, s0, s1, st1) = reload_loop (N - M + 1) 0 2 M (st ! 0) (st ! 1) st;
          (p0', p2', pM', s0', s1', st2) = reload_loop M p0 p2 0 s0 s1 st1;
          s1'' = st2 ! 0;
          st3 = st2[p0' := twist (st2 ! pM') s0' s1'']
      in (temper s1'', e2\<lparr>state := st3\<rparr>))"

text \<open>
  \<^verbatim>\<open>randomMT\<close>. Reading through a null or out-of-bounds \<^verbatim>\<open>next\<close> is undefined in C:
  the model returns \<open>None\<close> there.
\<close>

definition randomMT :: "engine \<Rightarrow> (u32 \<times> engine) option" where
  "randomMT e =
     (let e' = e\<lparr>left := left e - 1\<rparr>
      in if left e' < 0 then Some (reloadMT e')
         else (case nxt e' of
                 None \<Rightarrow> None
               | Some i \<Rightarrow>
                   if i < length (state e')
                   then Some (temper (state e' ! i), e'\<lparr>nxt := Some (i + 1)\<rparr>)
                   else None))"

section \<open>The candidate builder\<close>

definition bswap32 :: "u32 \<Rightarrow> u32" where
  "bswap32 x =
     drop_bit 24 (x AND 0xff000000) OR drop_bit 8 (x AND 0x00ff0000) OR
     push_bit 8 (x AND 0x0000ff00) OR push_bit 24 (x AND 0x000000ff)"

text \<open>
  \<^verbatim>\<open>rand_data\<close> is read and written both as \<^verbatim>\<open>uint32_t[64]\<close> and, through
  \<^verbatim>\<open>rand_data_bytes\<close>, as \<^verbatim>\<open>unsigned char[256]\<close>. On the little-endian hosts the tool
  runs on, word \<open>j\<close> occupies bytes \<open>4 j .. 4 j + 3\<close>, least significant byte first.
\<close>

definition word_bytes :: "u32 \<Rightarrow> u8 list" where
  "word_bytes w = [ucast w, ucast (drop_bit 8 w), ucast (drop_bit 16 w), ucast (drop_bit 24 w)]"

definition bytes_of_words :: "u32 list \<Rightarrow> u8 list" where
  "bytes_of_words ws = concat (map word_bytes ws)"

definition load32 :: "u8 list \<Rightarrow> nat \<Rightarrow> u32" where
  "load32 bs j =
     ucast (bs ! (4 * j)) OR push_bit 8 (ucast (bs ! (4 * j + 1))) OR
     push_bit 16 (ucast (bs ! (4 * j + 2))) OR push_bit 24 (ucast (bs ! (4 * j + 3)))"

definition words_of_bytes :: "u8 list \<Rightarrow> u32 list" where
  "words_of_bytes bs = map (load32 bs) [0 ..< length bs div 4]"

text \<open>
  The loop \<^verbatim>\<open>for (j = 0; j < 64; j++)\<close> of \<^verbatim>\<open>main\<close>, which fills \<^verbatim>\<open>rand_data\<close>.
\<close>

function fill :: "nat \<Rightarrow> u32 list \<Rightarrow> engine \<Rightarrow> (u32 list \<times> engine) option" where
  "fill j rand_data e =
     (if j < 64 then
        (case randomMT e of
           None \<Rightarrow> None
         | Some (r, e') \<Rightarrow>
             fill (j + 1)
               (rand_data[j := (if j = 63 then bswap32 (bswap32 (r AND 0xFFFF) + 0x0200) else r)])
               e')
      else Some (rand_data, e))"
  by pat_completeness auto
termination
  by (relation "measure (\<lambda>(j, rand_data, e). 64 - j)") auto

declare fill.simps [simp del]

text \<open>
  One seed trial up to the finished buffer: \<^verbatim>\<open>left = -1\<close>, \<^verbatim>\<open>seedMT(current_seed)\<close>,
  the fill loop, and \<^verbatim>\<open>rand_data_bytes[245] = 0\<close>. The array \<^verbatim>\<open>rand_data\<close> is
  uninitialised stack memory that the loop overwrites completely; it starts as zeros here.
\<close>

definition build_candidate :: "u32 \<Rightarrow> engine \<Rightarrow> (u8 list \<times> engine) option" where
  "build_candidate current_seed e =
     (case fill 0 (replicate 64 0) (seedMT current_seed (e\<lparr>left := - 1\<rparr>)) of
        None \<Rightarrow> None
      | Some (rand_data, e') \<Rightarrow> Some ((bytes_of_words rand_data)[245 := 0], e'))"

text \<open>
  The sequence of values that \<open>n\<close> successive calls of \<^verbatim>\<open>randomMT\<close> return.
\<close>

fun draw :: "nat \<Rightarrow> engine \<Rightarrow> (u32 list \<times> engine) option" where
  "draw 0 e = Some ([], e)"
| "draw (Suc n) e =
     (case randomMT e of
        None \<Rightarrow> None
      | Some (r, e') \<Rightarrow>
          (case draw n e' of None \<Rightarrow> None | Some (rs, e'') \<Rightarrow> Some (r # rs, e'')))"

section \<open>The oracle: textbook RSA through the big-number library\<close>

text \<open>
  The calls into OpenSSL, by their documented meaning: \<^verbatim>\<open>BN_hex2bn\<close> reads a hexadecimal
  string, \<^verbatim>\<open>BN_lebin2bn\<close> a little-endian byte string, \<^verbatim>\<open>BN_mod_exp\<close> is modular
  exponentiation and \<^verbatim>\<open>BN_bn2lebinpad\<close> writes the low \<open>len\<close> little-endian bytes
  (it fails only when the number needs more, which a residue of the modulus never does).
\<close>

definition hex_digit :: "char \<Rightarrow> nat" where
  "hex_digit c =
     (let k = of_char c :: nat
      in if 48 \<le> k \<and> k \<le> 57 then k - 48
         else if 97 \<le> k \<and> k \<le> 102 then k - 87
         else if 65 \<le> k \<and> k \<le> 70 then k - 55
         else 0)"

definition BN_hex2bn :: "string \<Rightarrow> nat" where
  "BN_hex2bn cs = foldl (\<lambda>a c. 16 * a + hex_digit c) 0 cs"

fun BN_lebin2bn :: "u8 list \<Rightarrow> nat" where
  "BN_lebin2bn [] = 0"
| "BN_lebin2bn (b # bs) = unat b + 256 * BN_lebin2bn bs"

definition BN_mod_exp :: "nat \<Rightarrow> nat \<Rightarrow> nat \<Rightarrow> nat" where
  "BN_mod_exp a p m = a ^ p mod m"

definition BN_bn2lebinpad :: "nat \<Rightarrow> nat \<Rightarrow> u8 list" where
  "BN_bn2lebinpad a len = map (\<lambda>i. of_nat (a div 256 ^ i)) [0 ..< len]"

text \<open>The public key 0x136 of the supplier bootloader, as \<^verbatim>\<open>main\<close> spells it.\<close>

definition rsa_n :: nat where
  "rsa_n = BN_hex2bn
     (''de5a5615fdda3b76b4ecd8754228885e7bf11fdd6c8c18ac24230f7f770006cf'' @
      ''e60465384e6a5ab4daa3009abc65bff2abb1da1428ce7a925366a14833dcd181'' @
      ''83bad61b2c66f0d8b9c4c90bf27fe9d1c55bf2830306a13d4559df60783f5809'' @
      ''547ffd364dbccea7a7c2fc32a0357ceba3e932abcac6bd6398894a1a22f63bdc'' @
      ''45b5da8b3c4e80f8c097ca7ffd18ff6c78c81e94c016c080ee6c5322e1aeb59d'' @
      ''2123dce1e4dd20d0f1cdb017326b4fd813c060e8d2acd62e703341784dca6676'' @
      ''32233de57db820f149964b3f4f0c785c39e2534a7ae36fd115b9f06457822f8a'' @
      ''9b7ce7533777a4fb03610d6b4018ab332be4e7ad2f4ac193040e5a037417bc53'')"

definition rsa_e :: nat where
  "rsa_e = 65537"

definition rsa_encrypt :: "u8 list \<Rightarrow> u8 list" where
  "rsa_encrypt rand_data_bytes =
     BN_bn2lebinpad (BN_mod_exp (BN_lebin2bn (take 256 rand_data_bytes)) rsa_e rsa_n) 256"

section \<open>The search loop\<close>

text \<open>
  The test \<^verbatim>\<open>rsa_output_ints[0] == match\<close>: the left operand is the \<^verbatim>\<open>uint32_t\<close> at the
  start of \<^verbatim>\<open>rsa_output\<close>, converted to the 64-bit type of \<^verbatim>\<open>match\<close> by the usual
  arithmetic conversions.
\<close>

definition prefix_matches :: "u8 list \<Rightarrow> u64 \<Rightarrow> bool" where
  "prefix_matches rsa_output match = ((ucast (load32 rsa_output 0) :: u64) = match)"

datatype outcome =
  Found u32 "u32 list" "u32 list"
| Fault

text \<open>
  One pass through the body of \<^verbatim>\<open>while (!done)\<close>. The result is the new value of
  \<^verbatim>\<open>seed\<close>, the engine, and what the pass printed if it set \<^verbatim>\<open>done\<close>: the seed tried,
  the words of \<^verbatim>\<open>rand_data\<close> and the words of \<^verbatim>\<open>rsa_output\<close>. The oracle is a
  parameter; \<^verbatim>\<open>main\<close> runs with \<open>rsa_encrypt\<close>.
\<close>

definition trial ::
  "(u8 list \<Rightarrow> u8 list) \<Rightarrow> u64 \<Rightarrow> u32 \<Rightarrow> engine \<Rightarrow> (u32 \<times> engine \<times> outcome option) option"
where
  "trial oracle match seed e =
     (let current_seed = seed;
          seed' = seed + 2
      in case build_candidate current_seed e of
           None \<Rightarrow> None
         | Some (rand_data_bytes, e') \<Rightarrow>
             (let rsa_output = oracle rand_data_bytes
              in if prefix_matches rsa_output match
                 then Some (seed', e',
                        Some (Found current_seed (words_of_bytes rand_data_bytes)
                                (words_of_bytes rsa_output)))
                 else Some (seed', e', None)))"

text \<open>
  The loop itself. It has no exit but \<^verbatim>\<open>done\<close>, so it is a partial function: \<open>None\<close>
  is a run that never returns, \<open>Some Fault\<close> one that reads through an invalid pointer.
\<close>

partial_function (option) search_loop ::
  "(u8 list \<Rightarrow> u8 list) \<Rightarrow> u64 \<Rightarrow> u32 \<Rightarrow> engine \<Rightarrow> outcome option"
where
  "search_loop oracle match seed e =
     (case trial oracle match seed e of
        None \<Rightarrow> Some Fault
      | Some (seed', e', Some r) \<Rightarrow> Some r
      | Some (seed', e', None) \<Rightarrow> search_loop oracle match seed' e')"

definition main :: "u32 \<Rightarrow> u64 \<Rightarrow> outcome option" where
  "main seed match = search_loop rsa_encrypt match seed initial_engine"

section \<open>Predicates of the statements\<close>

text \<open>The range that the countdown \<^verbatim>\<open>left\<close> is said to stay in.\<close>

definition countdown_in_range :: "engine \<Rightarrow> bool" where
  "countdown_in_range e = (- 1 \<le> left e \<and> left e \<le> 623)"

text \<open>
  What every engine that the program can reach satisfies: the array has its \<open>N + 1\<close>
  words, the countdown is in range, and while words remain to be read the cursor is the
  one that \<^verbatim>\<open>reloadMT\<close> set, advanced once per word read since.
\<close>

definition engine_ok :: "engine \<Rightarrow> bool" where
  "engine_ok e =
     (length (state e) = N + 1 \<and> countdown_in_range e \<and>
      (1 \<le> left e \<longrightarrow> nxt e = Some (N - nat (left e))))"

text \<open>
  The engines that calls of the three functions, and the assignment \<^verbatim>\<open>left = -1\<close> of
  \<^verbatim>\<open>main\<close>, can produce from the statically initialised one.
\<close>

inductive reachable :: "engine \<Rightarrow> bool" where
  constructed: "reachable initial_engine"
| seeded: "reachable e \<Longrightarrow> reachable (seedMT seed e)"
| reset: "reachable e \<Longrightarrow> reachable (e\<lparr>left := - 1\<rparr>)"
| read: "reachable e \<Longrightarrow> randomMT e = Some (y, e') \<Longrightarrow> reachable e'"
| reloaded: "reachable e \<Longrightarrow> reachable (snd (reloadMT e))"

section \<open>Seeding\<close>

lemma and_ffffffff [simp]: "(w :: u32) AND 0xFFFFFFFF = w"
proof -
  have "(0xFFFFFFFF :: u32) = - 1" by simp
  then show ?thesis by (simp only: and.right_neutral word_bitwise_m1_simps)
qed

lemma length_seed_loop [simp]: "length (seed_loop j x s st) = length st"
  by (induction j x s st rule: seed_loop.induct) (subst seed_loop.simps, simp)

lemma seed_loop_unfold:
  "j - 1 \<noteq> 0 \<Longrightarrow>
   seed_loop j x s st = seed_loop (j - 1) (x * 69069) (s + 1) (st[s := x * 69069])"
  by (subst seed_loop.simps) simp

lemma seed_loop_stop: "j - 1 = 0 \<Longrightarrow> seed_loop j x s st = st"
  by (subst seed_loop.simps) simp

lemma seed_loop_nth:
  "s + (j - 1) \<le> length st \<Longrightarrow>
   seed_loop j x s st ! i =
     (if s \<le> i \<and> i < s + (j - 1) then x * 69069 ^ (i - s + 1) else st ! i)"
proof (induction j x s st rule: seed_loop.induct)
  case (1 j x s st)
  show ?case
  proof (cases "j - 1 = 0")
    case True
    then show ?thesis by (auto simp: seed_loop_stop)
  next
    case False
    let ?st = "st[s := (x * 69069) AND 0xFFFFFFFF]"
    have len: "s + 1 + (j - 1 - 1) \<le> length ?st"
      using 1(2) False by simp
    have slt: "s < length st" using 1(2) False by simp
    have ih: "seed_loop (j - 1) (x * 69069) (s + 1) ?st ! i =
         (if s + 1 \<le> i \<and> i < s + 1 + (j - 1 - 1)
          then x * 69069 * 69069 ^ (i - (s + 1) + 1) else ?st ! i)"
      by (rule 1(1) [OF False len])
    have unf: "seed_loop j x s st = seed_loop (j - 1) (x * 69069) (s + 1) ?st"
      using False by (simp add: seed_loop_unfold)
    consider (eq) "i = s" | (inside) "s < i \<and> i < s + (j - 1)" | (outside) "i < s \<or> s + (j - 1) \<le> i"
      by linarith
    then show ?thesis
    proof cases
      case eq
      then have c: "\<not> (s + 1 \<le> i \<and> i < s + 1 + (j - 1 - 1))" by linarith
      from eq False have r: "s \<le> i \<and> i < s + (j - 1)" by linarith
      have "seed_loop j x s st ! i = ?st ! i"
        unfolding unf ih using c by (rule if_not_P)
      also have "\<dots> = x * 69069" using eq slt by simp
      also have "\<dots> = x * 69069 ^ (i - s + 1)" using eq by simp
      finally show ?thesis using r by (simp only: simp_thms if_True)
    next
      case inside
      then have c: "s + 1 \<le> i \<and> i < s + 1 + (j - 1 - 1)" by linarith
      from inside have e: "i - (s + 1) + 1 = i - s" "i - s + 1 = Suc (i - s)" by linarith+
      from inside have r: "s \<le> i \<and> i < s + (j - 1)" by linarith
      have "seed_loop j x s st ! i = x * 69069 * 69069 ^ (i - (s + 1) + 1)"
        unfolding unf ih using c by (rule if_P)
      also have "\<dots> = x * 69069 ^ (i - s + 1)" unfolding e by simp
      finally show ?thesis using r by (simp only: simp_thms if_True)
    next
      case outside
      then have c: "\<not> (s + 1 \<le> i \<and> i < s + 1 + (j - 1 - 1))" using False by linarith
      from outside False have ne: "i \<noteq> s" by linarith
      from outside have r: "\<not> (s \<le> i \<and> i < s + (j - 1))" by linarith
      have "seed_loop j x s st ! i = ?st ! i"
        unfolding unf ih using c by (rule if_not_P)
      also have "\<dots> = st ! i" using ne by simp
      finally show ?thesis using r by (simp only: simp_thms if_False)
    qed
  qed
qed

lemma seedMT_left [simp]: "left (seedMT seed e) = 0"
  by (simp add: seedMT_def Let_def)

lemma seedMT_nxt [simp]: "nxt (seedMT seed e) = nxt e"
  by (simp add: seedMT_def Let_def)

lemma length_seedMT [simp]: "length (state (seedMT seed e)) = length (state e)"
  by (simp add: seedMT_def Let_def)

lemma seedMT_nth:
  assumes "length (state e) = N + 1" and "i < N"
  shows "state (seedMT seed e) ! i = (seed OR 1) * 69069 ^ i"
proof (cases i)
  case 0
  with assms show ?thesis
    by (simp add: seedMT_def Let_def seed_loop_nth N_def)
next
  case (Suc k)
  with assms show ?thesis
    by (simp add: seedMT_def Let_def seed_loop_nth N_def del: power_Suc)
qed

lemma seedMT_last:
  assumes "length (state e) = N + 1"
  shows "state (seedMT seed e) ! N = state e ! N"
  using assms by (simp add: seedMT_def Let_def seed_loop_nth N_def)

lemma seedMT_ignores_left: "seedMT seed (e\<lparr>left := l\<rparr>) = seedMT seed e"
  by (simp add: seedMT_def Let_def)

lemma seedMT_fold: "seedMT (2 * k) e = seedMT (2 * k + 1) e"
  by (simp add: seedMT_def or_one_eq)

lemma randomMT_after_seed:
  "randomMT (seedMT seed e) = Some (reloadMT ((seedMT seed e)\<lparr>left := - 1\<rparr>))"
  by (simp add: randomMT_def Let_def)

text \<open>
  Claim C4. For every 32-bit seed, \<^verbatim>\<open>seedMT\<close> sets state word 0 to \<open>seed | 1\<close> and each
  state word \<open>i\<close> with \<open>1 \<le> i \<le> 623\<close> to 69069 times word \<open>i - 1\<close> modulo \<open>2^32\<close>; it
  sets the countdown to 0, so that the next call of \<^verbatim>\<open>randomMT\<close> takes the branch that
  regenerates (with the countdown decremented to \<open>-1\<close>).
\<close>

theorem initialize_recurrence:
  assumes "length (state e) = N + 1"
  shows "state (seedMT seed e) ! 0 = seed OR 1
       \<and> (\<forall>i. 1 \<le> i \<and> i \<le> 623 \<longrightarrow>
             state (seedMT seed e) ! i = 69069 * state (seedMT seed e) ! (i - 1))
       \<and> left (seedMT seed e) = 0
       \<and> randomMT (seedMT seed e) = Some (reloadMT ((seedMT seed e)\<lparr>left := - 1\<rparr>))"
proof -
  have a: "state (seedMT seed e) ! 0 = seed OR 1"
    using seedMT_nth [OF assms, of 0 seed] by (simp add: N_def)
  have b: "state (seedMT seed e) ! i = 69069 * state (seedMT seed e) ! (i - 1)"
    if "1 \<le> i \<and> i \<le> 623" for i
  proof -
    from that obtain k where k: "i = Suc k" by (cases i) auto
    with that have "i < N" "k < N" by (simp_all add: N_def)
    then show ?thesis
      using seedMT_nth [OF assms, of i seed] seedMT_nth [OF assms, of k seed] k
      by (simp add: mult.commute mult.left_commute)
  qed
  from a b show ?thesis
    by (simp add: randomMT_after_seed)
qed

theorem initialize_recurrence_witness:
  "length (state initial_engine) = N + 1
   \<and> state (seedMT 4 initial_engine) ! 0 = 5
   \<and> state (seedMT 4 initial_engine) ! 1 = 345345
   \<and> state (seedMT 4 initial_engine) ! 2 = 2377797325
   \<and> left (seedMT 4 initial_engine) = 0"
proof -
  have len: "length (state initial_engine) = N + 1"
    by (simp add: initial_engine_def)
  have four: "(4 :: u32) OR 1 = 5" by simp
  from initialize_recurrence [OF len, of 4] have
    z: "state (seedMT 4 initial_engine) ! 0 = 4 OR 1" and
    r: "\<forall>i. 1 \<le> i \<and> i \<le> 623 \<longrightarrow>
          state (seedMT 4 initial_engine) ! i = 69069 * state (seedMT 4 initial_engine) ! (i - 1)" and
    l: "left (seedMT 4 initial_engine) = 0"
    by blast+
  from r have r1: "state (seedMT 4 initial_engine) ! 1 = 69069 * state (seedMT 4 initial_engine) ! 0"
    by simp
  from r have r2: "state (seedMT 4 initial_engine) ! 2 = 69069 * state (seedMT 4 initial_engine) ! (2 - 1)"
    by (rule allE [where x = 2]) simp
  from len z r1 r2 l four show ?thesis by simp
qed

section \<open>Regeneration\<close>

lemma reload_loop_unfold:
  "j - 1 \<noteq> 0 \<Longrightarrow>
   reload_loop j p0 p2 pM s0 s1 st =
     reload_loop (j - 1) (p0 + 1) (p2 + 1) (pM + 1) s1
       ((st[p0 := twist (st ! pM) s0 s1]) ! p2) (st[p0 := twist (st ! pM) s0 s1])"
  by (subst reload_loop.simps) (simp add: Let_def)

lemma reload_loop_stop:
  "j - 1 = 0 \<Longrightarrow> reload_loop j p0 p2 pM s0 s1 st = (p0, p2, pM, s0, s1, st)"
  by (subst reload_loop.simps) simp

lemma reload_loop_length:
  "reload_loop j p0 p2 pM s0 s1 st = (p0', p2', pM', s0', s1', st') \<Longrightarrow> length st' = length st"
proof (induction j p0 p2 pM s0 s1 st rule: reload_loop.induct)
  case (1 j p0 p2 pM s0 s1 st)
  show ?case
  proof (cases "j - 1 = 0")
    case True
    with 1(2) show ?thesis by (simp add: reload_loop_stop)
  next
    case False
    from 1(2) have "reload_loop (j - 1) (p0 + 1) (p2 + 1) (pM + 1) s1
       ((st[p0 := twist (st ! pM) s0 s1]) ! p2) (st[p0 := twist (st ! pM) s0 s1])
       = (p0', p2', pM', s0', s1', st')"
      by (simp only: reload_loop_unfold [OF False])
    from 1(1) [OF False refl this] show ?thesis by simp
  qed
qed

lemma reloadMT_left [simp]: "left (snd (reloadMT e)) = 623"
  by (simp add: reloadMT_def Let_def N_def split: prod.splits)

lemma reloadMT_nxt [simp]: "nxt (snd (reloadMT e)) = Some 1"
  by (simp add: reloadMT_def Let_def split: prod.splits)

lemma length_reloadMT [simp]: "length (state (snd (reloadMT e))) = length (state e)"
  by (auto simp: reloadMT_def Let_def split: prod.splits dest!: reload_loop_length)

lemma reloadMT_ignores_left:
  "- 1 \<le> l \<Longrightarrow> - 1 \<le> left e \<Longrightarrow> reloadMT (e\<lparr>left := l\<rparr>) = reloadMT e"
  by (simp add: reloadMT_def)

lemma reloadMT_reseeds: "left e < - 1 \<Longrightarrow> reloadMT e = reloadMT (seedMT 1 e)"
  by (simp add: reloadMT_def)


section \<open>Reading words\<close>

lemma randomMT_reload: "left e - 1 < 0 \<Longrightarrow> randomMT e = Some (reloadMT (e\<lparr>left := left e - 1\<rparr>))"
  by (simp add: randomMT_def Let_def)

lemma randomMT_read:
  "0 \<le> left e - 1 \<Longrightarrow> nxt e = Some i \<Longrightarrow> i < length (state e) \<Longrightarrow>
   randomMT e = Some (temper (state e ! i), e\<lparr>left := left e - 1, nxt := Some (i + 1)\<rparr>)"
  by (simp add: randomMT_def Let_def)

lemma randomMT_read_cases:
  assumes "0 \<le> left e - 1" and "randomMT e = Some (y, e')"
  obtains i where "nxt e = Some i" and "i < length (state e)"
    and "y = temper (state e ! i)" and "e' = e\<lparr>left := left e - 1, nxt := Some (i + 1)\<rparr>"
  using assms by (auto simp: randomMT_def Let_def split: option.splits if_splits)

lemma engine_ok_initial: "engine_ok initial_engine"
  by (simp add: engine_ok_def countdown_in_range_def initial_engine_def)

lemma engine_ok_seedMT: "length (state e) = N + 1 \<Longrightarrow> engine_ok (seedMT seed e)"
  by (simp add: engine_ok_def countdown_in_range_def)

lemma engine_ok_reloadMT: "length (state e) = N + 1 \<Longrightarrow> engine_ok (snd (reloadMT e))"
  by (simp add: engine_ok_def countdown_in_range_def N_def)

lemma engine_ok_length: "engine_ok e \<Longrightarrow> length (state e) = N + 1"
  by (simp add: engine_ok_def)

lemma randomMT_ok:
  assumes "engine_ok e"
  shows "\<exists>y e'. randomMT e = Some (y, e') \<and> engine_ok e'"
proof (cases "left e - 1 < 0")
  case True
  have "engine_ok (snd (reloadMT (e\<lparr>left := left e - 1\<rparr>)))"
    using assms by (intro engine_ok_reloadMT) (simp add: engine_ok_def)
  with True show ?thesis
    by (metis randomMT_reload prod.collapse)
next
  case False
  with assms have nx: "nxt e = Some (N - nat (left e))" and len: "length (state e) = N + 1"
    and hi: "left e \<le> 623"
    by (simp_all add: engine_ok_def countdown_in_range_def)
  have lt: "N - nat (left e) < length (state e)" using len by simp
  have rd: "randomMT e = Some (temper (state e ! (N - nat (left e))),
       e\<lparr>left := left e - 1, nxt := Some (N - nat (left e) + 1)\<rparr>)"
    using False nx lt by (intro randomMT_read) simp_all
  have "N - nat (left e) + 1 = N - nat (left e - 1)" if "1 \<le> left e - 1"
    using that hi by (simp add: N_def)
  then have "engine_ok (e\<lparr>left := left e - 1, nxt := Some (N - nat (left e) + 1)\<rparr>)"
    using False hi len by (simp add: engine_ok_def countdown_in_range_def)
  with rd show ?thesis by blast
qed

text \<open>
  Claim C5. For every 32-bit \<open>k\<close>, seeding with \<open>2 k\<close> and seeding with \<open>2 k + 1\<close> leave
  the engine in the same state, so any number of calls of \<^verbatim>\<open>randomMT\<close> after the one
  returns exactly what it returns after the other.
\<close>

theorem odd_seed_folding:
  "seedMT (2 * k) e = seedMT (2 * k + 1) e
   \<and> draw n (seedMT (2 * k) e) = draw n (seedMT (2 * k + 1) e)"
  by (simp add: seedMT_fold)

lemma randomMT_keeps_range:
  assumes "countdown_in_range e" and "randomMT e = Some (y, e')"
  shows "countdown_in_range e'"
proof (cases "left e - 1 < 0")
  case True
  with assms(2) have "e' = snd (reloadMT (e\<lparr>left := left e - 1\<rparr>))"
    by (simp add: randomMT_reload)
  then show ?thesis by (simp add: countdown_in_range_def)
next
  case False
  then have "0 \<le> left e - 1" by simp
  from this assms(2) obtain i where "e' = e\<lparr>left := left e - 1, nxt := Some (i + 1)\<rparr>"
    by (rule randomMT_read_cases)
  with False assms(1) show ?thesis by (simp add: countdown_in_range_def)
qed

lemma reachable_ok: "reachable e \<Longrightarrow> engine_ok e"
proof (induction rule: reachable.induct)
  case constructed
  show ?case by (rule engine_ok_initial)
next
  case (seeded e seed)
  then show ?case by (intro engine_ok_seedMT engine_ok_length)
next
  case (reset e)
  then show ?case by (simp add: engine_ok_def countdown_in_range_def)
next
  case (read e y e')
  from randomMT_ok [OF read.IH] read.hyps(2) show ?case by auto
next
  case (reloaded e)
  then show ?case by (intro engine_ok_reloadMT engine_ok_length)
qed

text \<open>
  Claim C8. The countdown is in \<open>[-1, 623]\<close> after static initialisation, after
  \<^verbatim>\<open>seedMT\<close>, after \<^verbatim>\<open>reloadMT\<close>, and after every call of \<^verbatim>\<open>randomMT\<close> that started
  with the countdown in that range, hence in every engine the program can reach;
  \<^verbatim>\<open>reloadMT\<close> always leaves the countdown at 623 and the cursor at the second state
  word.
\<close>

theorem countdown_range:
  "countdown_in_range initial_engine
   \<and> countdown_in_range (seedMT seed e0)
   \<and> countdown_in_range (snd (reloadMT e1))
   \<and> (countdown_in_range e \<longrightarrow> randomMT e = Some (y, e') \<longrightarrow> countdown_in_range e')
   \<and> (reachable e2 \<longrightarrow> countdown_in_range e2)
   \<and> left (snd (reloadMT e1)) = 623 \<and> nxt (snd (reloadMT e1)) = Some 1"
proof -
  have a: "countdown_in_range initial_engine"
    by (simp add: countdown_in_range_def initial_engine_def)
  have b: "countdown_in_range (seedMT seed e0)"
    by (simp add: countdown_in_range_def)
  have c: "countdown_in_range (snd (reloadMT e1))"
    by (simp add: countdown_in_range_def)
  have d: "countdown_in_range e \<longrightarrow> randomMT e = Some (y, e') \<longrightarrow> countdown_in_range e'"
    using randomMT_keeps_range [of e y e'] by blast
  have r: "reachable e2 \<longrightarrow> countdown_in_range e2"
    using reachable_ok [of e2] by (auto simp: engine_ok_def)
  have f: "left (snd (reloadMT e1)) = 623" "nxt (snd (reloadMT e1)) = Some 1"
    by simp_all
  from a b c d r f show ?thesis by (intro conjI)
qed

theorem countdown_range_witness:
  "countdown_in_range (seedMT 1 initial_engine)
   \<and> (\<exists>y e'. randomMT (seedMT 1 initial_engine) = Some (y, e') \<and> reachable e'
        \<and> countdown_in_range e' \<and> left e' = 623 \<and> nxt e' = Some 1)"
proof -
  let ?e = "seedMT 1 initial_engine"
  let ?r = "reloadMT (?e\<lparr>left := - 1\<rparr>)"
  have rd: "randomMT ?e = Some (fst ?r, snd ?r)"
    by (simp add: randomMT_after_seed)
  have "reachable ?e"
    by (rule reachable.seeded) (rule reachable.constructed)
  then have re: "reachable (snd ?r)"
    using rd by (rule reachable.read)
  from countdown_range [where seed = 1 and ?e0.0 = initial_engine and e = ?e
      and y = "fst ?r" and e' = "snd ?r" and ?e2.0 = "snd ?r"]
  have "countdown_in_range ?e"
    and "countdown_in_range ?e \<longrightarrow> randomMT ?e = Some (fst ?r, snd ?r) \<longrightarrow> countdown_in_range (snd ?r)"
    and "reachable (snd ?r) \<longrightarrow> countdown_in_range (snd ?r)"
    by blast+
  with rd re have "randomMT ?e = Some (fst ?r, snd ?r) \<and> reachable (snd ?r)
      \<and> countdown_in_range (snd ?r)
      \<and> left (snd ?r) = 623 \<and> nxt (snd ?r) = Some 1" and "countdown_in_range ?e"
    by simp_all
  then show ?thesis by blast
qed

text \<open>
  Claim C9. A call of \<^verbatim>\<open>randomMT\<close> that does not regenerate (the countdown is still
  non-negative after the decrement) leaves every word of the state vector unchanged; it
  decrements the countdown, advances the cursor by one and returns the tempered word the
  cursor pointed at.
\<close>

theorem read_leaves_state:
  assumes "0 \<le> left e - 1" and "randomMT e = Some (y, e')"
  shows "state e' = state e \<and> left e' = left e - 1
       \<and> (\<exists>i. nxt e = Some i \<and> nxt e' = Some (i + 1) \<and> y = temper (state e ! i))"
proof -
  from assms obtain i where "nxt e = Some i" and "y = temper (state e ! i)"
    and "e' = e\<lparr>left := left e - 1, nxt := Some (i + 1)\<rparr>"
    by (rule randomMT_read_cases)
  then show ?thesis by simp
qed

theorem read_leaves_state_witness:
  "\<exists>y0 e y e'. randomMT (seedMT 1 initial_engine) = Some (y0, e) \<and> 0 \<le> left e - 1
     \<and> randomMT e = Some (y, e') \<and> state e' = state e \<and> left e' = 622 \<and> nxt e' = Some 2"
proof -
  let ?r = "reloadMT ((seedMT 1 initial_engine)\<lparr>left := - 1\<rparr>)"
  let ?e = "snd ?r"
  have first: "randomMT (seedMT 1 initial_engine) = Some (fst ?r, ?e)"
    by (simp add: randomMT_after_seed)
  have pos: "0 \<le> left ?e - 1" by simp
  have len: "length (state ?e) = N + 1" by (simp add: initial_engine_def)
  have rd: "randomMT ?e = Some (temper (state ?e ! 1), ?e\<lparr>left := left ?e - 1, nxt := Some (1 + 1)\<rparr>)"
    using pos len by (intro randomMT_read) (simp_all add: N_def)
  from read_leaves_state [OF pos rd] have "state (?e\<lparr>left := left ?e - 1, nxt := Some (1 + 1)\<rparr>) = state ?e"
    by blast
  with first pos rd show ?thesis
    by (intro exI [of _ "fst ?r"] exI [of _ ?e] exI [of _ "temper (state ?e ! 1)"]
          exI [of _ "?e\<lparr>left := left ?e - 1, nxt := Some (1 + 1)\<rparr>"]) simp
qed

text \<open>
  Claim C10. When \<^verbatim>\<open>reloadMT\<close> runs with the countdown below \<open>-1\<close> (an engine that was
  never seeded), it first calls \<^verbatim>\<open>seedMT(1)\<close> and then regenerates: it returns the word
  and leaves the engine that the first \<^verbatim>\<open>randomMT\<close> of an engine seeded with 1 does, so
  every later output is the same too.
\<close>

theorem reload_unseeded:
  assumes "left e < - 1"
  shows "reloadMT e = reloadMT (seedMT 1 e)
       \<and> randomMT (seedMT 1 e) = Some (reloadMT e)
       \<and> (\<forall>n. draw n (snd (reloadMT e)) = draw n (snd (reloadMT (seedMT 1 e))))"
proof -
  have a: "reloadMT e = reloadMT (seedMT 1 e)"
    using assms by (rule reloadMT_reseeds)
  have "reloadMT ((seedMT 1 e)\<lparr>left := - 1\<rparr>) = reloadMT (seedMT 1 e)"
    by (rule reloadMT_ignores_left) simp_all
  with a show ?thesis by (simp add: randomMT_after_seed)
qed

theorem reload_unseeded_witness:
  "left (initial_engine\<lparr>left := left initial_engine - 1\<rparr>) < - 1
   \<and> randomMT initial_engine = randomMT (seedMT 1 initial_engine)"
proof -
  let ?e = "initial_engine\<lparr>left := left initial_engine - 1\<rparr>"
  have neg: "left ?e < - 1" by (simp add: initial_engine_def)
  have "randomMT initial_engine = Some (reloadMT ?e)"
    by (rule randomMT_reload) (simp add: initial_engine_def)
  moreover have "seedMT 1 ?e = seedMT 1 initial_engine"
    by (rule seedMT_ignores_left)
  moreover from reload_unseeded [OF neg] have "randomMT (seedMT 1 ?e) = Some (reloadMT ?e)"
    by blast
  ultimately show ?thesis using neg by simp
qed

section \<open>Words and bytes\<close>

lemma mask_consts:
  "(0xff000000 :: u32) = push_bit 24 (mask 8)"
  "(0x00ff0000 :: u32) = push_bit 16 (mask 8)"
  "(0x0000ff00 :: u32) = push_bit 8 (mask 8)"
  "(0x000000ff :: u32) = mask 8"
  "(0xFFFF :: u32) = mask 16"
  "(0xFFFF00FF :: u32) = NOT (push_bit 8 (mask 8))"
  by (simp_all add: mask_eq_exp_minus_1 push_bit_eq_mult)

lemma bit_bswap32:
  "bit (bswap32 x) n \<longleftrightarrow>
     (if n < 8 then bit x (n + 24)
      else if n < 16 then bit x (n + 8)
      else if n < 24 then bit x (n - 8)
      else n < 32 \<and> bit x (n - 24))"
  by (auto simp: bswap32_def mask_consts bit_simps add.commute dest: bit_imp_le_length)

lemma bswap32_0x200: "bswap32 0x200 = 0x20000"
  by (simp add: bswap32_def)

lemma bswap32_bswap32 [simp]: "bswap32 (bswap32 x) = x"
  by (rule bit_word_eqI) (auto simp: bit_bswap32 dest: bit_imp_le_length)

lemma bswap32_or: "bswap32 (x OR y) = bswap32 x OR bswap32 y"
  by (rule bit_word_eqI) (auto simp: bit_bswap32 bit_simps)

lemma last_word_value:
  "bswap32 (bswap32 (w AND 0xFFFF) + 0x0200) = (w AND 0xFFFF) OR 0x20000"
proof -
  have m: "(0x200 :: u32) = 0xFFFF AND 0x200" by simp
  have z: "bswap32 (w AND 0xFFFF) AND 0xFFFF = 0"
    by (rule bit_word_eqI) (auto simp: bit_bswap32 mask_consts bit_simps)
  have "bswap32 (w AND 0xFFFF) AND 0x200 = (bswap32 (w AND 0xFFFF) AND 0xFFFF) AND 0x200"
    by (subst m) (simp only: and.assoc)
  also have "\<dots> = 0" by (simp only: z and.left_neutral and_zero_eq zero_and_eq)
  finally have "bswap32 (w AND 0xFFFF) AND 0x200 = 0" .
  then have "bswap32 (w AND 0xFFFF) + 0x200 = bswap32 (w AND 0xFFFF) OR 0x200"
    by (rule disjunctive_add_eq_or)
  then show ?thesis
    by (simp add: bswap32_or bswap32_0x200)
qed

lemma load32_word_bytes:
  "ucast (ucast w :: u8) OR push_bit 8 (ucast (ucast (drop_bit 8 w) :: u8)) OR
   push_bit 16 (ucast (ucast (drop_bit 16 w) :: u8)) OR
   push_bit 24 (ucast (ucast (drop_bit 24 w) :: u8)) = (w :: u32)"
proof (rule bit_word_eqI)
  fix n :: nat
  assume "n < LENGTH(32)"
  then consider "n < 8" | "8 \<le> n \<and> n < 16" | "16 \<le> n \<and> n < 24" | "24 \<le> n \<and> n < 32"
    by fastforce
  then show "bit (ucast (ucast w :: u8) OR push_bit 8 (ucast (ucast (drop_bit 8 w) :: u8)) OR
       push_bit 16 (ucast (ucast (drop_bit 16 w) :: u8)) OR
       push_bit 24 (ucast (ucast (drop_bit 24 w) :: u8)) :: u32) n = bit w n"
    by cases (auto simp add: bit_simps)
qed

lemma length_word_bytes [simp]: "length (word_bytes w) = 4"
  by (simp add: word_bytes_def)

lemma length_bytes_of_words [simp]: "length (bytes_of_words ws) = 4 * length ws"
  by (induction ws) (simp_all add: bytes_of_words_def)

lemma bytes_of_words_Cons: "bytes_of_words (w # ws) = word_bytes w @ bytes_of_words ws"
  by (simp add: bytes_of_words_def)

lemma bytes_of_words_nth:
  "j < length ws \<Longrightarrow> k < 4 \<Longrightarrow> bytes_of_words ws ! (4 * j + k) = word_bytes (ws ! j) ! k"
proof (induction ws arbitrary: j)
  case Nil
  then show ?case by simp
next
  case (Cons w ws)
  show ?case
  proof (cases j)
    case 0
    with Cons.prems show ?thesis
      by (simp add: bytes_of_words_Cons nth_append)
  next
    case (Suc j')
    with Cons.prems have "j' < length ws" by simp
    from Cons.IH [OF this Cons.prems(2)] Suc show ?thesis
      by (simp add: bytes_of_words_Cons nth_append)
  qed
qed

lemma load32_bytes_of_words:
  assumes "j < length ws"
  shows "load32 (bytes_of_words ws) j = ws ! j"
proof -
  have "bytes_of_words ws ! (4 * j) = word_bytes (ws ! j) ! 0"
    using bytes_of_words_nth [OF assms, of 0] by simp
  moreover have "bytes_of_words ws ! (4 * j + 1) = word_bytes (ws ! j) ! 1"
    "bytes_of_words ws ! (4 * j + 2) = word_bytes (ws ! j) ! 2"
    "bytes_of_words ws ! (4 * j + 3) = word_bytes (ws ! j) ! 3"
    using bytes_of_words_nth [OF assms, of 1] bytes_of_words_nth [OF assms, of 2]
      bytes_of_words_nth [OF assms, of 3] by simp_all
  ultimately show ?thesis
    by (simp add: load32_def word_bytes_def load32_word_bytes)
qed

lemma load32_update_other:
  "j \<noteq> 61 \<Longrightarrow> load32 (bs[245 := b]) j = load32 bs j"
proof -
  assume "j \<noteq> 61"
  then have "4 * j \<noteq> 245" "4 * j + 1 \<noteq> 245" "4 * j + 2 \<noteq> 245" "4 * j + 3 \<noteq> 245"
    by presburger+
  then show ?thesis by (simp add: load32_def)
qed

lemma load32_update_61:
  assumes "248 \<le> length bs"
  shows "load32 (bs[245 := 0]) 61 = load32 bs 61 AND 0xFFFF00FF"
proof -
  have "load32 (bs[245 := 0]) 61 =
      ucast (bs ! 244) OR push_bit 16 (ucast (bs ! 246)) OR push_bit 24 (ucast (bs ! 247))"
    using assms by (simp add: load32_def)
  also have "\<dots> = load32 bs 61 AND 0xFFFF00FF"
    by (rule bit_word_eqI)
      (auto simp: load32_def mask_consts bit_simps dest: bit_imp_le_length)
  finally show ?thesis .
qed

section \<open>Filling the buffer\<close>

lemma draw_ok:
  "engine_ok e \<Longrightarrow> \<exists>outs e'. draw n e = Some (outs, e') \<and> length outs = n \<and> engine_ok e'"
proof (induction n arbitrary: e)
  case 0
  then show ?case by simp
next
  case (Suc n)
  from randomMT_ok [OF Suc.prems] obtain y e1 where
    r: "randomMT e = Some (y, e1)" and ok1: "engine_ok e1" by blast
  from Suc.IH [OF ok1] obtain outs e' where
    d: "draw n e1 = Some (outs, e')" and l: "length outs = n" and ok': "engine_ok e'" by blast
  from r d l ok' show ?case by simp
qed

lemma fill_step:
  "j < 64 \<Longrightarrow> randomMT e = Some (r, e') \<Longrightarrow>
   fill j rand_data e =
     fill (j + 1)
       (rand_data[j := (if j = 63 then bswap32 (bswap32 (r AND 0xFFFF) + 0x0200) else r)]) e'"
  by (subst fill.simps) simp

lemma fill_stop: "\<not> j < 64 \<Longrightarrow> fill j rand_data e = Some (rand_data, e)"
  by (subst fill.simps) simp

lemma fill_draw:
  assumes "engine_ok e" and "64 - j = n" and "j \<le> 64" and "length rd = 64"
  shows "\<exists>outs e' rd'. draw n e = Some (outs, e') \<and> length outs = n \<and> engine_ok e'
           \<and> fill j rd e = Some (rd', e') \<and> length rd' = 64
           \<and> (\<forall>i<64. rd' ! i =
                 (if i < j then rd ! i
                  else if i = 63 then bswap32 (bswap32 (outs ! (i - j) AND 0xFFFF) + 0x0200)
                  else outs ! (i - j)))"
  using assms
proof (induction n arbitrary: e j rd)
  case 0
  then have "\<not> j < 64" by simp
  with 0 show ?case by (simp add: fill_stop)
next
  case (Suc n)
  from Suc.prems have jlt: "j < 64" by simp
  from randomMT_ok [OF Suc.prems(1)] obtain r e1 where
    r: "randomMT e = Some (r, e1)" and ok1: "engine_ok e1" by blast
  let ?v = "if j = 63 then bswap32 (bswap32 (r AND 0xFFFF) + 0x0200) else r"
  let ?rd1 = "rd[j := ?v]"
  have n: "64 - (j + 1) = n" using Suc.prems(2) by simp
  have j1: "j + 1 \<le> 64" using jlt by simp
  have l1: "length ?rd1 = 64" using Suc.prems(4) by simp
  from Suc.IH [OF ok1 n j1 l1] obtain outs e' rd' where
    d: "draw n e1 = Some (outs, e')" and lo: "length outs = n" and ok': "engine_ok e'" and
    f: "fill (j + 1) ?rd1 e1 = Some (rd', e')" and lr: "length rd' = 64" and
    v: "\<forall>i<64. rd' ! i =
          (if i < j + 1 then ?rd1 ! i
           else if i = 63 then bswap32 (bswap32 (outs ! (i - (j + 1)) AND 0xFFFF) + 0x0200)
           else outs ! (i - (j + 1)))"
    by blast
  have dr: "draw (Suc n) e = Some (r # outs, e')" using r d by simp
  have fl: "fill j rd e = Some (rd', e')" using fill_step [OF jlt r] f by simp
  have "rd' ! i =
      (if i < j then rd ! i
       else if i = 63 then bswap32 (bswap32 ((r # outs) ! (i - j) AND 0xFFFF) + 0x0200)
       else (r # outs) ! (i - j))" if i: "i < 64" for i
  proof -
    consider "i < j" | "i = j" | "j < i" by linarith
    then show ?thesis
    proof cases
      case 1
      with v i show ?thesis by simp
    next
      case 2
      with v i Suc.prems(4) jlt show ?thesis by simp
    next
      case 3
      then have "(r # outs) ! (i - j) = outs ! (i - (j + 1))"
        by (simp add: nth_Cons')
      with 3 v i show ?thesis by simp
    qed
  qed
  with dr fl lo lr ok' show ?case by simp
qed

section \<open>What regeneration writes\<close>

lemma reload_loop_frame:
  "reload_loop j p0 p2 pM s0 s1 st = (p0', p2', pM', s0', s1', st') \<Longrightarrow>
   p0' = p0 + (j - 1) \<and> pM' = pM + (j - 1) \<and> (\<forall>i<p0. st' ! i = st ! i)"
proof (induction j p0 p2 pM s0 s1 st rule: reload_loop.induct)
  case (1 j p0 p2 pM s0 s1 st)
  show ?case
  proof (cases "j - 1 = 0")
    case True
    with 1(2) show ?thesis by (simp add: reload_loop_stop)
  next
    case False
    let ?st = "st[p0 := twist (st ! pM) s0 s1]"
    from 1(2) have "reload_loop (j - 1) (p0 + 1) (p2 + 1) (pM + 1) s1 (?st ! p2) ?st
       = (p0', p2', pM', s0', s1', st')"
      by (simp only: reload_loop_unfold [OF False])
    from 1(1) [OF False refl this]
    have a: "p0' = p0 + 1 + (j - 1 - 1)" and b: "pM' = pM + 1 + (j - 1 - 1)"
      and c: "\<forall>i<p0 + 1. st' ! i = ?st ! i"
      by blast+
    from a False have "p0' = p0 + (j - 1)" by linarith
    moreover from b False have "pM' = pM + (j - 1)" by linarith
    moreover from c have "\<forall>i<p0. st' ! i = st ! i" by simp
    ultimately show ?thesis by blast
  qed
qed

lemma reload_loop_ahead:
  assumes "p2 = p0 + 2" and "p0 + (j - 1) \<le> pM" and "s0 = st ! p0" and "s1 = st ! (p0 + 1)"
    and "p0 + (j - 1) \<le> length st"
  shows "\<exists>st'. reload_loop j p0 p2 pM s0 s1 st =
           (p0 + (j - 1), p2 + (j - 1), pM + (j - 1), st ! (p0 + (j - 1)), st ! (p0 + (j - 1) + 1), st')
         \<and> (\<forall>i. p0 \<le> i \<and> i < p0 + (j - 1) \<longrightarrow>
               st' ! i = twist (st ! (i + (pM - p0))) (st ! i) (st ! (i + 1)))"
  using assms
proof (induction j p0 p2 pM s0 s1 st rule: reload_loop.induct)
  case (1 j p0 p2 pM s0 s1 st)
  show ?case
  proof (cases "j - 1 = 0")
    case True
    then show ?thesis using "1.prems" by (auto simp add: reload_loop_stop)
  next
    case False
    let ?st = "st[p0 := twist (st ! pM) s0 s1]"
    have pMgt: "p0 < pM" using "1.prems"(2) False by linarith
    have p0lt: "p0 < length st" using "1.prems"(5) False by linarith
    have a1: "p2 + 1 = p0 + 1 + 2" using "1.prems"(1) by simp
    have a2: "p0 + 1 + (j - 1 - 1) \<le> pM + 1" using "1.prems"(2) False by linarith
    have a3: "s1 = ?st ! (p0 + 1)" using "1.prems"(4) by simp
    have a4: "?st ! p2 = ?st ! (p0 + 1 + 1)" using "1.prems"(1) by simp
    have a5: "p0 + 1 + (j - 1 - 1) \<le> length ?st" using "1.prems"(5) False by simp
    from "1.IH" [OF False refl a1 a2 a3 a4 a5] obtain st' where
      r: "reload_loop (j - 1) (p0 + 1) (p2 + 1) (pM + 1) s1 (?st ! p2) ?st =
           (p0 + 1 + (j - 1 - 1), p2 + 1 + (j - 1 - 1), pM + 1 + (j - 1 - 1),
            ?st ! (p0 + 1 + (j - 1 - 1)), ?st ! (p0 + 1 + (j - 1 - 1) + 1), st')" and
      v: "\<forall>i. p0 + 1 \<le> i \<and> i < p0 + 1 + (j - 1 - 1) \<longrightarrow>
               st' ! i = twist (?st ! (i + (pM + 1 - (p0 + 1)))) (?st ! i) (?st ! (i + 1))"
      by blast
    have e: "p0 + 1 + (j - 1 - 1) = p0 + (j - 1)" "p2 + 1 + (j - 1 - 1) = p2 + (j - 1)"
      "pM + 1 + (j - 1 - 1) = pM + (j - 1)"
      using False by linarith+
    have ne: "p0 + (j - 1) \<noteq> p0" "p0 + (j - 1) + 1 \<noteq> p0" using False by linarith+
    have res: "reload_loop j p0 p2 pM s0 s1 st =
        (p0 + (j - 1), p2 + (j - 1), pM + (j - 1), st ! (p0 + (j - 1)), st ! (p0 + (j - 1) + 1), st')"
      using r ne unfolding e reload_loop_unfold [OF False] by simp
    from reload_loop_frame [OF r] have fr: "\<forall>i<p0 + 1. st' ! i = ?st ! i" by blast
    have "st' ! i = twist (st ! (i + (pM - p0))) (st ! i) (st ! (i + 1))"
      if i: "p0 \<le> i \<and> i < p0 + (j - 1)" for i
    proof (cases "i = p0")
      case True
      with fr have "st' ! i = ?st ! p0" by simp
      also have "\<dots> = twist (st ! pM) s0 s1" using p0lt by simp
      finally show ?thesis using True "1.prems"(3,4) pMgt by simp
    next
      case ne0: False
      with i have c: "p0 + 1 \<le> i \<and> i < p0 + 1 + (j - 1 - 1)" by linarith
      with v have "st' ! i = twist (?st ! (i + (pM + 1 - (p0 + 1)))) (?st ! i) (?st ! (i + 1))"
        by blast
      moreover have "i + (pM + 1 - (p0 + 1)) = i + (pM - p0)" by simp
      moreover have "i + (pM - p0) \<noteq> p0" "i \<noteq> p0" "i + 1 \<noteq> p0" using c pMgt by linarith+
      ultimately show ?thesis by simp
    qed
    with res show ?thesis by blast
  qed
qed


lemma reloadMT_first_words:
  assumes len: "length (state e) = N + 1" and seeded: "- 1 \<le> left e"
  shows "fst (reloadMT e) = temper (state (snd (reloadMT e)) ! 0)
       \<and> (\<forall>i<227. state (snd (reloadMT e)) ! i =
             twist (state e ! (i + 397)) (state e ! i) (state e ! (i + 1)))"
proof -
  let ?st = "state e"
  have "\<exists>st'. reload_loop 228 0 2 397 (?st ! 0) (?st ! 1) ?st =
           (0 + (228 - 1), 2 + (228 - 1), 397 + (228 - 1), ?st ! (0 + (228 - 1)),
            ?st ! (0 + (228 - 1) + 1), st')
         \<and> (\<forall>i. 0 \<le> i \<and> i < 0 + (228 - 1) \<longrightarrow>
               st' ! i = twist (?st ! (i + (397 - 0))) (?st ! i) (?st ! (i + 1)))"
    using len by (intro reload_loop_ahead) (simp_all add: N_def)
  then obtain st1 where
    l1: "reload_loop 228 0 2 397 (?st ! 0) (?st ! 1) ?st =
           (227, 229, 624, ?st ! 227, ?st ! 228, st1)" and
    v1: "\<forall>i<227. st1 ! i = twist (?st ! (i + 397)) (?st ! i) (?st ! (i + 1))"
    by auto
  obtain p0' p2' pM' s0' s1' st2 where
    l2: "reload_loop 397 227 229 0 (?st ! 227) (?st ! 228) st1 = (p0', p2', pM', s0', s1', st2)"
    by (metis prod_cases3)
  from reload_loop_frame [OF l2] have p0': "p0' = 623" and v2: "\<forall>i<227. st2 ! i = st1 ! i"
    by simp_all
  have r: "reloadMT e =
      (temper (st2 ! 0),
       e\<lparr>left := 623, nxt := Some 1, state := st2[623 := twist (st2 ! pM') s0' (st2 ! 0)]\<rparr>)"
    using seeded l1 l2 p0' by (simp add: reloadMT_def N_def M_def Let_def)
  have "state (snd (reloadMT e)) ! i = twist (?st ! (i + 397)) (?st ! i) (?st ! (i + 1))"
    if "i < 227" for i
    using that r v1 v2 by simp
  moreover have "fst (reloadMT e) = temper (state (snd (reloadMT e)) ! 0)"
    using r by simp
  ultimately show ?thesis by blast
qed

lemma draw_reads:
  assumes "nxt e = Some c" and "int n \<le> left e" and "c + n \<le> length (state e)"
  shows "draw n e =
     Some (map (\<lambda>k. temper (state e ! (c + k))) [0..<n],
           e\<lparr>left := left e - int n, nxt := Some (c + n)\<rparr>)"
  using assms
proof (induction n arbitrary: e c)
  case 0
  then show ?case by simp
next
  case (Suc n)
  let ?e1 = "e\<lparr>left := left e - 1, nxt := Some (c + 1)\<rparr>"
  have rd: "randomMT e = Some (temper (state e ! c), ?e1)"
    using Suc.prems by (intro randomMT_read) simp_all
  have "draw n ?e1 =
     Some (map (\<lambda>k. temper (state ?e1 ! (c + 1 + k))) [0..<n],
           ?e1\<lparr>left := left ?e1 - int n, nxt := Some (c + 1 + n)\<rparr>)"
    using Suc.prems by (intro Suc.IH) simp_all
  moreover have "map (\<lambda>k. temper (state e ! (c + k))) [0..<Suc n] =
      temper (state e ! c) # map (\<lambda>k. temper (state e ! (c + 1 + k))) [0..<n]"
    by (simp only: upt_conv_Cons [of 0 "Suc n"] map_Suc_upt [symmetric]) (simp add: comp_def)
  ultimately show ?case using rd by (simp del: upt_Suc)
qed

lemma draw_after_seed:
  assumes "length (state e) = N + 1" and "n \<le> 623"
  shows "\<exists>e'. draw (Suc n) (seedMT seed e) =
     Some (map (\<lambda>k. temper (state (snd (reloadMT (seedMT seed e))) ! k)) [0..<Suc n], e')"
proof -
  let ?r = "reloadMT (seedMT seed e)"
  have same: "reloadMT ((seedMT seed e)\<lparr>left := - 1\<rparr>) = ?r"
    by (rule reloadMT_ignores_left) simp_all
  have rd: "randomMT (seedMT seed e) = Some (fst ?r, snd ?r)"
    by (simp add: randomMT_after_seed same)
  have h: "fst ?r = temper (state (snd ?r) ! 0)"
    using reloadMT_first_words [of "seedMT seed e"] assms(1) by simp
  have "draw n (snd ?r) =
     Some (map (\<lambda>k. temper (state (snd ?r) ! (1 + k))) [0..<n],
           (snd ?r)\<lparr>left := left (snd ?r) - int n, nxt := Some (1 + n)\<rparr>)"
    using assms by (intro draw_reads) (simp_all add: N_def)
  moreover have "map (\<lambda>k. temper (state (snd ?r) ! k)) [0..<Suc n] =
      temper (state (snd ?r) ! 0) # map (\<lambda>k. temper (state (snd ?r) ! (1 + k))) [0..<n]"
    by (simp only: upt_conv_Cons [of 0 "Suc n"] map_Suc_upt [symmetric]) (simp add: comp_def)
  ultimately show ?thesis using rd h by (simp del: upt_Suc)
qed

lemma first_outputs:
  assumes "length (state e) = N + 1" and "draw 64 (seedMT seed e) = Some (outs, e')"
    and "k < 64"
  shows "outs ! k =
     temper (twist ((seed OR 1) * 69069 ^ (k + 397)) ((seed OR 1) * 69069 ^ k)
               ((seed OR 1) * 69069 ^ (k + 1)))"
proof -
  let ?e = "seedMT seed e"
  have len: "length (state ?e) = N + 1" using assms(1) by simp
  from draw_after_seed [OF assms(1), of 63 seed] assms(2)
  have "outs = map (\<lambda>k. temper (state (snd (reloadMT ?e)) ! k)) [0..<64]"
    by auto
  with assms(3) have "outs ! k = temper (state (snd (reloadMT ?e)) ! k)"
    by simp
  moreover have "state (snd (reloadMT ?e)) ! k =
      twist (state ?e ! (k + 397)) (state ?e ! k) (state ?e ! (k + 1))"
    using reloadMT_first_words [OF len] assms(3) by simp
  moreover have "state ?e ! (k + 397) = (seed OR 1) * 69069 ^ (k + 397)"
    "state ?e ! k = (seed OR 1) * 69069 ^ k"
    "state ?e ! (k + 1) = (seed OR 1) * 69069 ^ (k + 1)"
    using assms(1,3) by (simp_all add: seedMT_nth N_def del: power_Suc)
  ultimately show ?thesis by simp
qed

section \<open>The first outputs for seed 1\<close>

lemma pow_69069_join:
  "x ^ a = (u :: u32) \<Longrightarrow> x ^ b = v \<Longrightarrow> u * v = w \<Longrightarrow> a + b = c \<Longrightarrow> x ^ c = w"
  by (auto simp: power_add)

lemma pow_69069_1: "(69069 :: u32) ^ 1 = 69069"
  by simp

lemma pow_69069_2: "(69069 :: u32) ^ 2 = 475559465"
  by (rule pow_69069_join [OF pow_69069_1 pow_69069_1]) simp_all

lemma pow_69069_3: "(69069 :: u32) ^ 3 = 2801775573"
  by (rule pow_69069_join [OF pow_69069_2 pow_69069_1]) simp_all

lemma pow_69069_4: "(69069 :: u32) ^ 4 = 1790562961"
  by (rule pow_69069_join [OF pow_69069_2 pow_69069_2]) simp_all

lemma pow_69069_6: "(69069 :: u32) ^ 6 = 4238970681"
  by (rule pow_69069_join [OF pow_69069_3 pow_69069_3]) simp_all

lemma pow_69069_7: "(69069 :: u32) ^ 7 = 2135332261"
  by (rule pow_69069_join [OF pow_69069_6 pow_69069_1]) simp_all

lemma pow_69069_8: "(69069 :: u32) ^ 8 = 381957665"
  by (rule pow_69069_join [OF pow_69069_4 pow_69069_4]) simp_all

lemma pow_69069_14: "(69069 :: u32) ^ 14 = 3820321881"
  by (rule pow_69069_join [OF pow_69069_7 pow_69069_7]) simp_all

lemma pow_69069_15: "(69069 :: u32) ^ 15 = 201201733"
  by (rule pow_69069_join [OF pow_69069_14 pow_69069_1]) simp_all

lemma pow_69069_16: "(69069 :: u32) ^ 16 = 2583294017"
  by (rule pow_69069_join [OF pow_69069_8 pow_69069_8]) simp_all

lemma pow_69069_28: "(69069 :: u32) ^ 28 = 3896530673"
  by (rule pow_69069_join [OF pow_69069_14 pow_69069_14]) simp_all

lemma pow_69069_30: "(69069 :: u32) ^ 30 = 423166617"
  by (rule pow_69069_join [OF pow_69069_15 pow_69069_15]) simp_all

lemma pow_69069_31: "(69069 :: u32) ^ 31 = 442620293"
  by (rule pow_69069_join [OF pow_69069_30 pow_69069_1]) simp_all

lemma pow_69069_32: "(69069 :: u32) ^ 32 = 4058771585"
  by (rule pow_69069_join [OF pow_69069_16 pow_69069_16]) simp_all

lemma pow_69069_56: "(69069 :: u32) ^ 56 = 1711722209"
  by (rule pow_69069_join [OF pow_69069_28 pow_69069_28]) simp_all

lemma pow_69069_57: "(69069 :: u32) ^ 57 = 3671463725"
  by (rule pow_69069_join [OF pow_69069_56 pow_69069_1]) simp_all

lemma pow_69069_60: "(69069 :: u32) ^ 60 = 170442609"
  by (rule pow_69069_join [OF pow_69069_30 pow_69069_30]) simp_all

lemma pow_69069_61: "(69069 :: u32) ^ 61 = 4090169981"
  by (rule pow_69069_join [OF pow_69069_60 pow_69069_1]) simp_all

lemma pow_69069_62: "(69069 :: u32) ^ 62 = 2476523289"
  by (rule pow_69069_join [OF pow_69069_31 pow_69069_31]) simp_all

lemma pow_69069_63: "(69069 :: u32) ^ 63 = 3914484741"
  by (rule pow_69069_join [OF pow_69069_62 pow_69069_1]) simp_all

lemma pow_69069_64: "(69069 :: u32) ^ 64 = 1355292929"
  by (rule pow_69069_join [OF pow_69069_32 pow_69069_32]) simp_all

lemma pow_69069_114: "(69069 :: u32) ^ 114 = 1700077033"
  by (rule pow_69069_join [OF pow_69069_57 pow_69069_57]) simp_all

lemma pow_69069_115: "(69069 :: u32) ^ 115 = 2509686933"
  by (rule pow_69069_join [OF pow_69069_114 pow_69069_1]) simp_all

lemma pow_69069_228: "(69069 :: u32) ^ 228 = 3124272657"
  by (rule pow_69069_join [OF pow_69069_114 pow_69069_114]) simp_all

lemma pow_69069_229: "(69069 :: u32) ^ 229 = 2641260701"
  by (rule pow_69069_join [OF pow_69069_228 pow_69069_1]) simp_all

lemma pow_69069_230: "(69069 :: u32) ^ 230 = 499459769"
  by (rule pow_69069_join [OF pow_69069_115 pow_69069_115]) simp_all

lemma pow_69069_458: "(69069 :: u32) ^ 458 = 2322972745"
  by (rule pow_69069_join [OF pow_69069_229 pow_69069_229]) simp_all

lemma pow_69069_460: "(69069 :: u32) ^ 460 = 2291495345"
  by (rule pow_69069_join [OF pow_69069_230 pow_69069_230]) simp_all

lemma seed1_outputs:
  assumes "draw 64 (seedMT 1 initial_engine) = Some (outs, e')"
  shows "outs ! 61 = 1632794539" and "outs ! 63 = 2794489200"
proof -
  have len: "length (state initial_engine) = N + 1"
    by (simp add: initial_engine_def)
  have one: "(1 :: u32) OR 1 = 1" by simp
  have "outs ! 61 = temper (twist (69069 ^ 458) (69069 ^ 61) (69069 ^ 62))"
    using first_outputs [OF len assms, of 61] by (simp add: one del: power_numeral)
  then show "outs ! 61 = 1632794539"
    by (simp only: pow_69069_458 pow_69069_61 pow_69069_62)
      (simp add: temper_def twist_def mixBits_def hiBit_def loBit_def loBits_def K_def)
  have "outs ! 63 = temper (twist (69069 ^ 460) (69069 ^ 63) (69069 ^ 64))"
    using first_outputs [OF len assms, of 63] by (simp add: one del: power_numeral)
  then show "outs ! 63 = 2794489200"
    by (simp only: pow_69069_460 pow_69069_63 pow_69069_64)
      (simp add: temper_def twist_def mixBits_def hiBit_def loBit_def loBits_def K_def)
qed

section \<open>The candidate buffer\<close>

lemma build_candidate_shape:
  assumes "length (state e) = N + 1"
  shows "\<exists>outs e' rd. draw 64 (seedMT seed e) = Some (outs, e') \<and> length outs = 64
           \<and> engine_ok e'
           \<and> build_candidate seed e = Some ((bytes_of_words rd)[245 := 0], e')
           \<and> length rd = 64 \<and> (\<forall>i<63. rd ! i = outs ! i)
           \<and> rd ! 63 = bswap32 (bswap32 (outs ! 63 AND 0xFFFF) + 0x0200)"
proof -
  have ok: "engine_ok (seedMT seed e)"
    using assms by (rule engine_ok_seedMT)
  have "(64 :: nat) - 0 = 64" "(0 :: nat) \<le> 64" "length (replicate 64 (0 :: u32)) = 64"
    by simp_all
  from fill_draw [OF ok this] obtain outs e' rd where
    d: "draw 64 (seedMT seed e) = Some (outs, e')" and lo: "length outs = 64" and
    ok': "engine_ok e'" and f: "fill 0 (replicate 64 0) (seedMT seed e) = Some (rd, e')" and
    lr: "length rd = 64" and
    v: "\<forall>i<64. rd ! i =
          (if i < 0 then replicate 64 0 ! i
           else if i = 63 then bswap32 (bswap32 (outs ! (i - 0) AND 0xFFFF) + 0x0200)
           else outs ! (i - 0))"
    by blast
  from v have v1: "\<forall>i<63. rd ! i = outs ! i" by simp
  from v have v2: "rd ! 63 = bswap32 (bswap32 (outs ! 63 AND 0xFFFF) + 0x0200)" by simp
  have "build_candidate seed e = Some ((bytes_of_words rd)[245 := 0], e')"
    using f by (simp add: build_candidate_def seedMT_ignores_left)
  with d lo ok' lr v1 v2 show ?thesis by blast
qed


lemma seed1_candidate:
  "\<exists>outs e0 rd e'. draw 64 (seedMT 1 initial_engine) = Some (outs, e0)
     \<and> build_candidate 1 initial_engine = Some ((bytes_of_words rd)[245 := 0], e')
     \<and> length rd = 64 \<and> outs ! 61 = 1632794539 \<and> outs ! 63 = 2794489200
     \<and> rd ! 61 = 1632794539 \<and> rd ! 63 = 165232"
proof -
  have len: "length (state initial_engine) = N + 1"
    by (simp add: initial_engine_def)
  from build_candidate_shape [OF len, of 1] obtain outs e' rd where
    d: "draw 64 (seedMT 1 initial_engine) = Some (outs, e')" and
    b: "build_candidate 1 initial_engine = Some ((bytes_of_words rd)[245 := 0], e')" and
    lr: "length rd = 64" and v1: "\<forall>i<63. rd ! i = outs ! i" and
    v2: "rd ! 63 = bswap32 (bswap32 (outs ! 63 AND 0xFFFF) + 0x0200)"
    by blast
  note o = seed1_outputs [OF d]
  from v1 o(1) have r61: "rd ! 61 = 1632794539" by simp
  from v2 o(2) have r63: "rd ! 63 = 165232" by (simp add: bswap32_def)
  from d b lr o r61 r63 show ?thesis by blast
qed

text \<open>
  Claim C2, as amended. For every seed the builder returns 256 bytes whose byte 245 is 0;
  the little-endian 4-byte groups 0 to 62 other than group 61 are the engine outputs of the
  same index; group 61, which holds byte 245, is output 61 with its second byte cleared;
  and group 63 is \<open>bswap32 (bswap32 (w & 0xFFFF) + 0x0200)\<close> for the 64th output \<open>w\<close>.
\<close>

theorem candidate_layout:
  assumes "length (state e) = N + 1"
  shows "\<exists>outs e0 buf e'. draw 64 (seedMT seed e) = Some (outs, e0)
           \<and> build_candidate seed e = Some (buf, e')
           \<and> length buf = 256 \<and> buf ! 245 = 0
           \<and> (\<forall>j<63. j \<noteq> 61 \<longrightarrow> load32 buf j = outs ! j)
           \<and> load32 buf 61 = outs ! 61 AND 0xFFFF00FF
           \<and> load32 buf 63 = bswap32 (bswap32 (outs ! 63 AND 0xFFFF) + 0x0200)"
proof -
  from build_candidate_shape [OF assms] obtain outs e' rd where
    d: "draw 64 (seedMT seed e) = Some (outs, e')" and
    b: "build_candidate seed e = Some ((bytes_of_words rd)[245 := 0], e')" and
    lr: "length rd = 64" and v1: "\<forall>i<63. rd ! i = outs ! i" and
    v2: "rd ! 63 = bswap32 (bswap32 (outs ! 63 AND 0xFFFF) + 0x0200)"
    by blast
  let ?buf = "(bytes_of_words rd)[245 := 0]"
  have len: "length ?buf = 256" using lr by simp
  have z: "?buf ! 245 = 0" using lr by simp
  have w: "load32 ?buf j = outs ! j" if "j < 63" and "j \<noteq> 61" for j
    using that lr v1 by (simp add: load32_update_other load32_bytes_of_words)
  have w61: "load32 ?buf 61 = outs ! 61 AND 0xFFFF00FF"
    using lr v1 by (simp add: load32_update_61 load32_bytes_of_words)
  have w63: "load32 ?buf 63 = bswap32 (bswap32 (outs ! 63 AND 0xFFFF) + 0x0200)"
    using lr v2 by (simp add: load32_update_other load32_bytes_of_words)
  from d b len z w w61 w63 show ?thesis by blast
qed


theorem candidate_layout_witness:
  "length (state initial_engine) = N + 1
   \<and> (\<exists>outs e0 buf e'. draw 64 (seedMT 1 initial_engine) = Some (outs, e0)
         \<and> build_candidate 1 initial_engine = Some (buf, e')
         \<and> length buf = 256 \<and> buf ! 245 = 0
         \<and> load32 buf 0 = outs ! 0
         \<and> load32 buf 61 = outs ! 61 AND 0xFFFF00FF
         \<and> load32 buf 63 = bswap32 (bswap32 (outs ! 63 AND 0xFFFF) + 0x0200))"
proof -
  have len: "length (state initial_engine) = N + 1"
    by (simp add: initial_engine_def)
  from candidate_layout [OF len, of 1] obtain outs e0 buf e' where
    "draw 64 (seedMT 1 initial_engine) = Some (outs, e0)"
    "build_candidate 1 initial_engine = Some (buf, e')"
    "length buf = 256" "buf ! 245 = 0"
    "\<forall>j<63. j \<noteq> 61 \<longrightarrow> load32 buf j = outs ! j"
    "load32 buf 61 = outs ! 61 AND 0xFFFF00FF"
    "load32 buf 63 = bswap32 (bswap32 (outs ! 63 AND 0xFFFF) + 0x0200)"
    by blast
  moreover from this have "load32 buf 0 = outs ! 0" by simp
  ultimately show ?thesis using len by blast
qed

text \<open>
  For seed 1 the 62nd output is \<open>0x615277AB\<close>, but group 61 of the buffer holds
  \<open>0x615200AB\<close>: the claim as stated (the first 63 groups verbatim) fails there.
\<close>

theorem candidate_verbatim_counterexample:
  "load32 (fst (the (build_candidate 1 initial_engine))) 61
     \<noteq> fst (the (draw 64 (seedMT 1 initial_engine))) ! 61"
proof -
  from seed1_candidate obtain outs e0 rd e' where
    d: "draw 64 (seedMT 1 initial_engine) = Some (outs, e0)" and
    b: "build_candidate 1 initial_engine = Some ((bytes_of_words rd)[245 := 0], e')" and
    lr: "length rd = 64" and o: "outs ! 61 = 1632794539" and r: "rd ! 61 = 1632794539"
    by blast
  have "load32 ((bytes_of_words rd)[245 := 0]) 61 = rd ! 61 AND 0xFFFF00FF"
    using lr by (simp add: load32_update_61 load32_bytes_of_words)
  also have "\<dots> = 1632764075" using r by simp
  finally show ?thesis using d b o by simp
qed

lemma drop_bytes_of_words: "drop (4 * k) (bytes_of_words ws) = bytes_of_words (drop k ws)"
proof (induction ws arbitrary: k)
  case Nil
  then show ?case by (simp add: bytes_of_words_def)
next
  case (Cons w ws)
  show ?case
  proof (cases k)
    case 0
    then show ?thesis by simp
  next
    case (Suc k')
    show ?thesis unfolding Suc using Cons.IH [of k']
      by (simp add: bytes_of_words_Cons)
  qed
qed

lemma last_group_bytes:
  assumes "length rd = 64"
  shows "drop 252 ((bytes_of_words rd)[245 := b]) = word_bytes (rd ! 63)"
proof -
  have "drop 63 rd = [rd ! 63]"
    using assms by (simp add: Cons_nth_drop_Suc [symmetric])
  then have "drop (4 * 63) (bytes_of_words rd) = word_bytes (rd ! 63)"
    by (simp only: drop_bytes_of_words) (simp add: bytes_of_words_def)
  then show ?thesis by (simp add: drop_update_cancel)
qed

lemma word_bytes_last:
  "word_bytes ((w AND 0xFFFF) OR 0x20000) = [ucast w, ucast (drop_bit 8 w), 2, 0]"
proof -
  have k: "(0x20000 :: u8) = 0" "(0x200 :: u8) = 0"
    by simp_all
  have a: "(ucast (w AND 0xFFFF) :: u8) = ucast w"
    by (rule bit_word_eqI) (auto simp: mask_consts bit_simps)
  have b: "(ucast (drop_bit 8 (w AND 0xFFFF)) :: u8) = ucast (drop_bit 8 w)"
    by (rule bit_word_eqI) (auto simp: mask_consts bit_simps)
  have c: "drop_bit 16 (w AND 0xFFFF) = 0"
    by (rule bit_word_eqI) (auto simp: mask_consts bit_simps)
  have d: "drop_bit 24 (w AND 0xFFFF) = 0"
    by (rule bit_word_eqI) (auto simp: mask_consts bit_simps)
  have "(ucast ((w AND 0xFFFF) OR 0x20000) :: u8) = ucast (w AND 0xFFFF) OR ucast (0x20000 :: u32)"
    by (rule unsigned_or_eq)
  also have "\<dots> = ucast w" unfolding a by (simp add: k)
  finally have b0: "(ucast ((w AND 0xFFFF) OR 0x20000) :: u8) = ucast w" .
  have "drop_bit 8 ((w AND 0xFFFF) OR 0x20000) = drop_bit 8 (w AND 0xFFFF) OR 0x200"
    by (simp only: drop_bit_or) simp
  then have "(ucast (drop_bit 8 ((w AND 0xFFFF) OR 0x20000)) :: u8)
      = ucast (drop_bit 8 (w AND 0xFFFF)) OR ucast (0x200 :: u32)"
    by (simp only: unsigned_or_eq)
  also have "\<dots> = ucast (drop_bit 8 w)" unfolding b by (simp add: k)
  finally have b1: "(ucast (drop_bit 8 ((w AND 0xFFFF) OR 0x20000)) :: u8) = ucast (drop_bit 8 w)" .
  have "drop_bit 16 ((w AND 0xFFFF) OR 0x20000) = drop_bit 16 (w AND 0xFFFF) OR 2"
    by (simp only: drop_bit_or) simp
  then have b2: "(ucast (drop_bit 16 ((w AND 0xFFFF) OR 0x20000)) :: u8) = 2"
    unfolding c by simp
  have "drop_bit 24 ((w AND 0xFFFF) OR 0x20000) = drop_bit 24 (w AND 0xFFFF) OR 0"
    by (simp only: drop_bit_or) simp
  then have b3: "(ucast (drop_bit 24 ((w AND 0xFFFF) OR 0x20000)) :: u8) = 0"
    unfolding d by simp
  show ?thesis
    unfolding word_bytes_def b0 b1 b2 b3 ..
qed

text \<open>
  Claim C3, as amended. For every seed the last 4-byte group of the buffer comes from the
  64th engine output by masking it to its low 16 bits, swapping the bytes, adding
  \<open>0x0200\<close> to the swapped value and swapping the bytes of the sum back; the group is
  stored little-endian like the others. Its value is the low 16 bits of the output with
  \<open>0x0002\<close> above them: the bytes at offsets 252 to 255 are the two low bytes of the
  output, \<open>0x02\<close> and \<open>0x00\<close>.
\<close>

theorem last_word_layout:
  assumes "length (state e) = N + 1"
  shows "\<exists>outs e0 buf e'. draw 64 (seedMT seed e) = Some (outs, e0)
           \<and> build_candidate seed e = Some (buf, e')
           \<and> load32 buf 63 = bswap32 (bswap32 (outs ! 63 AND 0xFFFF) + 0x0200)
           \<and> load32 buf 63 = (outs ! 63 AND 0xFFFF) OR 0x20000
           \<and> drop 252 buf = [ucast (outs ! 63), ucast (drop_bit 8 (outs ! 63)), 2, 0]"
proof -
  from build_candidate_shape [OF assms] obtain outs e' rd where
    d: "draw 64 (seedMT seed e) = Some (outs, e')" and
    b: "build_candidate seed e = Some ((bytes_of_words rd)[245 := 0], e')" and
    lr: "length rd = 64" and
    v2: "rd ! 63 = bswap32 (bswap32 (outs ! 63 AND 0xFFFF) + 0x0200)"
    by blast
  let ?buf = "(bytes_of_words rd)[245 := 0]"
  have w63: "load32 ?buf 63 = bswap32 (bswap32 (outs ! 63 AND 0xFFFF) + 0x0200)"
    using lr v2 by (simp add: load32_update_other load32_bytes_of_words)
  then have w63': "load32 ?buf 63 = (outs ! 63 AND 0xFFFF) OR 0x20000"
    by (simp only: last_word_value)
  have "drop 252 ?buf = word_bytes ((outs ! 63 AND 0xFFFF) OR 0x20000)"
    using last_group_bytes [OF lr] v2 by (simp only: last_word_value)
  then have "drop 252 ?buf = [ucast (outs ! 63), ucast (drop_bit 8 (outs ! 63)), 2, 0]"
    by (simp only: word_bytes_last)
  with d b w63 w63' show ?thesis by blast
qed

theorem last_word_layout_witness:
  "length (state initial_engine) = N + 1
   \<and> (\<exists>outs e0 buf e'. draw 64 (seedMT 1 initial_engine) = Some (outs, e0)
         \<and> build_candidate 1 initial_engine = Some (buf, e')
         \<and> outs ! 63 = 0xA6908570
         \<and> load32 buf 63 = 0x00028570
         \<and> drop 252 buf = [0x70, 0x85, 0x02, 0x00])"
proof -
  have len: "length (state initial_engine) = N + 1"
    by (simp add: initial_engine_def)
  from last_word_layout [OF len, of 1] obtain outs e0 buf e' where
    d: "draw 64 (seedMT 1 initial_engine) = Some (outs, e0)" and
    b: "build_candidate 1 initial_engine = Some (buf, e')" and
    w: "load32 buf 63 = (outs ! 63 AND 0xFFFF) OR 0x20000" and
    l: "drop 252 buf = [ucast (outs ! 63), ucast (drop_bit 8 (outs ! 63)), 2, 0]"
    by blast
  have o: "outs ! 63 = 0xA6908570" using seed1_outputs(2) [OF d] by simp
  from w o have "load32 buf 63 = 0x00028570" by simp
  moreover from l o have "drop 252 buf = [0x70, 0x85, 0x02, 0x00]" by simp
  ultimately show ?thesis using len d b o by blast
qed

text \<open>
  For seed 1 the 64th output is \<open>0xA6908570\<close>. Masking it and adding \<open>0x0200\<close> gives
  \<open>0x00008770\<close>, whose bytes in reversed order are \<open>00 00 87 70\<close>; the buffer holds
  \<open>70 85 02 00\<close>: the claim as stated fails there.
\<close>

theorem last_word_counterexample:
  "drop 252 (fst (the (build_candidate 1 initial_engine)))
     \<noteq> rev (word_bytes ((fst (the (draw 64 (seedMT 1 initial_engine))) ! 63 AND 0xFFFF) + 0x0200))"
proof -
  from seed1_candidate obtain outs e0 rd e' where
    d: "draw 64 (seedMT 1 initial_engine) = Some (outs, e0)" and
    b: "build_candidate 1 initial_engine = Some ((bytes_of_words rd)[245 := 0], e')" and
    lr: "length rd = 64" and o: "outs ! 63 = 2794489200" and r: "rd ! 63 = 165232"
    by blast
  have "drop 252 ((bytes_of_words rd)[245 := 0]) = word_bytes 165232"
    using last_group_bytes [OF lr] r by simp
  then have "drop 252 ((bytes_of_words rd)[245 := 0]) = [0x70, 0x85, 0x02, 0x00]"
    by (simp add: word_bytes_def)
  moreover have "rev (word_bytes ((2794489200 AND 0xFFFF) + 0x0200)) = [0x00, 0x00, 0x87, 0x70]"
    by (simp add: word_bytes_def)
  ultimately show ?thesis using d b o by simp
qed

section \<open>The candidate as a number\<close>

lemma BN_lebin2bn_append:
  "BN_lebin2bn (xs @ ys) = BN_lebin2bn xs + 256 ^ length xs * BN_lebin2bn ys"
  by (induction xs) (simp_all add: algebra_simps)

lemma BN_lebin2bn_bound: "BN_lebin2bn xs < 256 ^ length xs"
proof (induction xs)
  case Nil
  then show ?case by simp
next
  case (Cons b bs)
  have "unat b < 256" using unsigned_less [of b] by simp
  with Cons show ?case by simp
qed

lemma rsa_n_value: "rsa_n = 28069450178983458027201159953225879454738528740424690669697460716399216359962151274152490675041270288833671725553219516926537262650519108672765908929517652948336789074408780385838149743785627001125839192131901324266813887590899991031274706172537965974967585741410801291208076099564830896485529801061264796814291955653843195153223096801907471025610621193730680408598586060833258930149051160173072903674315122951463289633486128526384550757402892914317803816539807386198151077408953860045063673301208410864064204288492114139301489875179145410715165440664601330354850905740276591346310485799242389476656590262526048451667"
  by (simp add: rsa_n_def BN_hex2bn_def hex_digit_def)

lemma rsa_n_large: "3 * 256 ^ 254 \<le> rsa_n"
  by (simp add: rsa_n_value)

text \<open>
  Claim C6. For every seed the finished 256-byte buffer, read as a little-endian unsigned
  integer, is strictly less than the RSA modulus.
\<close>

theorem candidate_below_modulus:
  assumes "length (state e) = N + 1"
  shows "\<exists>buf e'. build_candidate seed e = Some (buf, e') \<and> length buf = 256
           \<and> BN_lebin2bn buf < rsa_n"
proof -
  from build_candidate_shape [OF assms] obtain outs e' rd where
    b: "build_candidate seed e = Some ((bytes_of_words rd)[245 := 0], e')" and
    lr: "length rd = 64" and
    v2: "rd ! 63 = bswap32 (bswap32 (outs ! 63 AND 0xFFFF) + 0x0200)"
    by blast
  let ?buf = "(bytes_of_words rd)[245 := 0]"
  let ?w = "outs ! 63"
  have len: "length ?buf = 256" using lr by simp
  have "drop 252 ?buf = word_bytes ((?w AND 0xFFFF) OR 0x20000)"
    using last_group_bytes [OF lr] v2 by (simp only: last_word_value)
  then have top: "drop 252 ?buf = [ucast ?w, ucast (drop_bit 8 ?w), 2, 0]"
    by (simp only: word_bytes_last)
  have b0: "unat (ucast ?w :: u8) < 256" using unsigned_less [of "ucast ?w :: u8"] by simp
  have b1: "unat (ucast (drop_bit 8 ?w) :: u8) < 256"
    using unsigned_less [of "ucast (drop_bit 8 ?w) :: u8"] by simp
  have hi: "BN_lebin2bn (drop 252 ?buf) < 3 * 256 ^ 2"
    using b0 b1 by (simp add: top)
  have lo: "BN_lebin2bn (take 252 ?buf) < 256 ^ 252"
    using BN_lebin2bn_bound [of "take 252 ?buf"] len by simp
  have "BN_lebin2bn ?buf = BN_lebin2bn (take 252 ?buf @ drop 252 ?buf)"
    by (simp only: append_take_drop_id)
  also have "\<dots> = BN_lebin2bn (take 252 ?buf) + 256 ^ 252 * BN_lebin2bn (drop 252 ?buf)"
    using len by (simp only: BN_lebin2bn_append) simp
  also have "\<dots> < 256 ^ 252 + 256 ^ 252 * (3 * 256 ^ 2 - 1)"
  proof -
    from hi have "BN_lebin2bn (drop 252 ?buf) \<le> 3 * 256 ^ 2 - 1" by simp
    then have "256 ^ 252 * BN_lebin2bn (drop 252 ?buf) \<le> 256 ^ 252 * (3 * 256 ^ 2 - 1)"
      by (rule mult_le_mono2)
    with lo show ?thesis by (rule add_less_le_mono)
  qed
  also have "\<dots> = 3 * 256 ^ 254" by simp
  also have "\<dots> \<le> rsa_n" by (rule rsa_n_large)
  finally have "BN_lebin2bn ?buf < rsa_n" .
  with b len show ?thesis by blast
qed

theorem candidate_below_modulus_witness:
  "length (state initial_engine) = N + 1
   \<and> (\<exists>buf e'. build_candidate 1 initial_engine = Some (buf, e') \<and> length buf = 256
         \<and> BN_lebin2bn buf < rsa_n)"
proof -
  have len: "length (state initial_engine) = N + 1"
    by (simp add: initial_engine_def)
  from candidate_below_modulus [OF len, of 1] len show ?thesis by blast
qed

section \<open>The comparison with the target\<close>

lemma unat_ucast_u32_u64: "unat (ucast (x :: u32) :: u64) = unat x"
  by transfer simp

lemma or4_eq_sum:
  fixes b0 b1 b2 b3 :: u8
  shows "(ucast b0 OR push_bit 8 (ucast b1) OR push_bit 16 (ucast b2) OR push_bit 24 (ucast b3) :: u32)
       = ucast b0 + (push_bit 8 (ucast b1) + (push_bit 16 (ucast b2) + push_bit 24 (ucast b3)))"
proof -
  let ?A = "ucast b0 :: u32" and ?B = "push_bit 8 (ucast b1) :: u32"
  let ?C = "push_bit 16 (ucast b2) :: u32" and ?D = "push_bit 24 (ucast b3) :: u32"
  have cd: "?C AND ?D = 0"
    by (rule bit_word_eqI) (auto simp: bit_simps dest: bit_imp_le_length)
  have bcd: "?B AND (?C OR ?D) = 0"
    by (rule bit_word_eqI) (auto simp: bit_simps dest: bit_imp_le_length)
  have abcd: "?A AND (?B OR ?C OR ?D) = 0"
    by (rule bit_word_eqI) (auto simp: bit_simps dest: bit_imp_le_length)
  have e3: "?C OR ?D = ?C + ?D"
    using cd by (rule disjunctive_add_eq_or [symmetric])
  from bcd have "?B AND (?C + ?D) = 0" by (simp only: e3)
  then have e2: "?B OR (?C + ?D) = ?B + (?C + ?D)"
    by (rule disjunctive_add_eq_or [symmetric])
  from abcd have "?A AND (?B + (?C + ?D)) = 0" by (simp only: e3 e2)
  then have e1: "?A OR (?B + (?C + ?D)) = ?A + (?B + (?C + ?D))"
    by (rule disjunctive_add_eq_or [symmetric])
  show ?thesis by (simp only: e3 e2 e1)
qed

lemma load32_le_value:
  assumes "4 \<le> length bs"
  shows "unat (load32 bs 0) = BN_lebin2bn (take 4 bs)"
proof -
  from assms obtain b0 r0 where r0: "bs = b0 # r0" "3 \<le> length r0"
    by (cases bs) auto
  then obtain b1 r1 where r1: "r0 = b1 # r1" "2 \<le> length r1"
    by (cases r0) auto
  then obtain b2 r2 where r2: "r1 = b2 # r2" "1 \<le> length r2"
    by (cases r1) auto
  then obtain b3 rest where r3: "r2 = b3 # rest"
    by (cases r2) auto
  from r0 r1 r2 r3 have bs: "bs = b0 # b1 # b2 # b3 # rest" by simp
  let ?v = "unat b0 + 256 * (unat b1 + 256 * (unat b2 + 256 * unat b3))"
  have v: "BN_lebin2bn (take 4 bs) = ?v" by (simp add: bs)
  have "unat b0 < 256" "unat b1 < 256" "unat b2 < 256" "unat b3 < 256"
    using unsigned_less [of b0] unsigned_less [of b1] unsigned_less [of b2] unsigned_less [of b3]
    by simp_all
  then have small: "?v < 2 ^ 32" by simp
  have "load32 bs 0 =
      ucast b0 + (push_bit 8 (ucast b1) + (push_bit 16 (ucast b2) + push_bit 24 (ucast b3)))"
    unfolding load32_def bs by (simp add: or4_eq_sum)
  also have "\<dots> = of_nat ?v"
    by (simp add: push_bit_eq_mult of_nat_unat algebra_simps)
  finally have "unat (load32 bs 0) = ?v mod 2 ^ 32"
    by (simp only: unat_of_nat) simp
  with small v show ?thesis by simp
qed

lemma prefix_matches_iff:
  assumes "4 \<le> length rsa_output"
  shows "prefix_matches rsa_output match \<longleftrightarrow> BN_lebin2bn (take 4 rsa_output) = unat match"
  using load32_le_value [OF assms]
  by (simp add: prefix_matches_def word_unat_eq_iff unat_ucast_u32_u64)

lemma length_BN_bn2lebinpad [simp]: "length (BN_bn2lebinpad a len) = len"
  by (simp add: BN_bn2lebinpad_def)

lemma length_rsa_encrypt [simp]: "length (rsa_encrypt buf) = 256"
  by (simp add: rsa_encrypt_def)

section \<open>The loop\<close>

lemma trial_result:
  assumes "length (state e) = N + 1"
  shows "\<exists>buf e'. build_candidate seed e = Some (buf, e') \<and> length (state e') = N + 1
           \<and> trial oracle match seed e =
               Some (seed + 2, e',
                 if prefix_matches (oracle buf) match
                 then Some (Found seed (words_of_bytes buf) (words_of_bytes (oracle buf)))
                 else None)"
proof -
  from build_candidate_shape [OF assms] obtain e' rd where
    b: "build_candidate seed e = Some ((bytes_of_words rd)[245 := 0], e')" and ok: "engine_ok e'"
    by blast
  from ok have "length (state e') = N + 1" by (rule engine_ok_length)
  with b show ?thesis by (simp add: trial_def Let_def)
qed

lemma search_loop_found:
  "trial oracle match seed e = Some (seed', e', Some r) \<Longrightarrow>
   search_loop oracle match seed e = Some r"
  by (subst search_loop.simps) simp

lemma search_loop_next:
  "trial oracle match seed e = Some (seed', e', None) \<Longrightarrow>
   search_loop oracle match seed e = search_loop oracle match seed' e'"
  by (subst search_loop.simps) simp

lemma build_candidate_independent:
  assumes "length (state e1) = N + 1" and "length (state e2) = N + 1"
    and "build_candidate seed e1 = Some (buf1, e1')" and "build_candidate seed e2 = Some (buf2, e2')"
  shows "buf1 = buf2"
proof -
  from build_candidate_shape [OF assms(1), of seed] assms(3) obtain outs1 d1 rd1 where
    d1: "draw 64 (seedMT seed e1) = Some (outs1, d1)" and
    b1: "buf1 = (bytes_of_words rd1)[245 := 0]" and l1: "length rd1 = 64" and
    v1: "\<forall>i<63. rd1 ! i = outs1 ! i" and
    w1: "rd1 ! 63 = bswap32 (bswap32 (outs1 ! 63 AND 0xFFFF) + 0x0200)"
    by auto
  from build_candidate_shape [OF assms(2), of seed] assms(4) obtain outs2 d2 rd2 where
    d2: "draw 64 (seedMT seed e2) = Some (outs2, d2)" and
    b2: "buf2 = (bytes_of_words rd2)[245 := 0]" and l2: "length rd2 = 64" and
    v2: "\<forall>i<63. rd2 ! i = outs2 ! i" and
    w2: "rd2 ! 63 = bswap32 (bswap32 (outs2 ! 63 AND 0xFFFF) + 0x0200)"
    by auto
  have same: "outs1 ! k = outs2 ! k" if "k < 64" for k
    using first_outputs [OF assms(1) d1 that] first_outputs [OF assms(2) d2 that] by simp
  have "rd1 = rd2"
  proof (rule nth_equalityI)
    show "length rd1 = length rd2" using l1 l2 by simp
  next
    fix i assume "i < length rd1"
    then have i: "i < 64" using l1 by simp
    show "rd1 ! i = rd2 ! i"
    proof (cases "i = 63")
      case True
      with w1 w2 same [of 63] show ?thesis by simp
    next
      case False
      with i have "i < 63" by simp
      with v1 v2 same [of i] i show ?thesis by simp
    qed
  qed
  with b1 b2 show ?thesis by simp
qed

lemma search_loop_sound:
  assumes ret: "search_loop oracle match seed e = Some y" and len: "length (state e) = N + 1"
  shows "\<exists>k buf e'. build_candidate (seed + 2 * of_nat k) initial_engine = Some (buf, e')
           \<and> prefix_matches (oracle buf) match
           \<and> y = Found (seed + 2 * of_nat k) (words_of_bytes buf) (words_of_bytes (oracle buf))"
proof -
  define Q where "Q = (\<lambda>orc m (sd :: u32) (en :: engine) r.
    length (state en) = N + 1 \<longrightarrow>
    (\<exists>k buf e'. build_candidate (sd + 2 * of_nat k) initial_engine = Some (buf, e')
       \<and> prefix_matches (orc buf) m
       \<and> r = Found (sd + 2 * of_nat k) (words_of_bytes buf) (words_of_bytes (orc buf))))"
  have len0: "length (state initial_engine) = N + 1" by (simp add: initial_engine_def)
  have "Q oracle match seed e y"
  proof (rule search_loop.raw_induct [of Q "oracle" "match" seed e y])
    show "search_loop oracle match seed e = Some y" by (rule ret)
  next
    fix loop :: "(u8 list \<Rightarrow> u8 list) \<Rightarrow> u64 \<Rightarrow> u32 \<Rightarrow> engine \<Rightarrow> outcome option"
    fix orc m sd en r
    assume IH: "\<And>orc m sd en r. loop orc m sd en = Some r \<Longrightarrow> Q orc m sd en r"
    assume body: "(case trial orc m sd en of
          None \<Rightarrow> Some Fault
        | Some (seed', e', None) \<Rightarrow> loop orc m seed' e'
        | Some (seed', e', Some r) \<Rightarrow> Some r) = Some r"
    show "Q orc m sd en r"
      unfolding Q_def
    proof
      assume l: "length (state en) = N + 1"
      from trial_result [OF l, of sd orc m] obtain buf e' where
        b: "build_candidate sd en = Some (buf, e')" and len': "length (state e') = N + 1" and
        t: "trial orc m sd en =
              Some (sd + 2, e',
                if prefix_matches (orc buf) m
                then Some (Found sd (words_of_bytes buf) (words_of_bytes (orc buf)))
                else None)"
        by blast
      from trial_result [OF len0, of sd orc m] obtain buf0 e0 where
        b0: "build_candidate sd initial_engine = Some (buf0, e0)" by blast
      have same: "buf0 = buf"
        using build_candidate_independent [OF len0 l b0 b] .
      show "\<exists>k buf e'. build_candidate (sd + 2 * of_nat k) initial_engine = Some (buf, e')
           \<and> prefix_matches (orc buf) m
           \<and> r = Found (sd + 2 * of_nat k) (words_of_bytes buf) (words_of_bytes (orc buf))"
      proof (cases "prefix_matches (orc buf) m")
        case True
        with body t have "r = Found sd (words_of_bytes buf) (words_of_bytes (orc buf))"
          by simp
        with True b0 same show ?thesis
          by (intro exI [of _ 0] exI [of _ buf] exI [of _ e0]) simp
      next
        case False
        with body t have "loop orc m (sd + 2) e' = Some r" by simp
        from IH [OF this] len' obtain k buf1 e1 where
          k: "build_candidate (sd + 2 + 2 * of_nat k) initial_engine = Some (buf1, e1)"
          "prefix_matches (orc buf1) m"
          "r = Found (sd + 2 + 2 * of_nat k) (words_of_bytes buf1) (words_of_bytes (orc buf1))"
          unfolding Q_def by blast
        have "sd + 2 + 2 * of_nat k = sd + 2 * of_nat (Suc k)" by simp
        with k show ?thesis
          by (intro exI [of _ "Suc k"] exI [of _ buf1] exI [of _ e1]) simp
      qed
    qed
  qed
  with len show ?thesis unfolding Q_def by blast
qed

lemma first_word_small: "BN_lebin2bn (take 4 bs) < 2 ^ 32"
proof -
  have "BN_lebin2bn (take 4 bs) < 256 ^ length (take 4 bs)"
    by (rule BN_lebin2bn_bound)
  also have "\<dots> \<le> 256 ^ 4"
    by (rule power_increasing) simp_all
  finally show ?thesis by simp
qed

text \<open>
  Claim C1, as amended. In every iteration the first 4 bytes of the oracle's 256-byte
  output, read as a little-endian 32-bit value (a number below \<open>2^32\<close>), are compared with
  the 64-bit target: when they are equal the loop ends in Found with the seed tried, the
  words of the candidate and the words of the oracle's output; when they differ it goes on
  with the seed advanced by 2.
\<close>

theorem found_iff_first_word:
  assumes "length (state e) = N + 1" and "\<forall>b. length (oracle b) = 256"
  shows "\<exists>buf e'. build_candidate seed e = Some (buf, e')
           \<and> BN_lebin2bn (take 4 (oracle buf)) < 2 ^ 32
           \<and> (if BN_lebin2bn (take 4 (oracle buf)) = unat match
                then search_loop oracle match seed e =
                       Some (Found seed (words_of_bytes buf) (words_of_bytes (oracle buf)))
                else search_loop oracle match seed e = search_loop oracle match (seed + 2) e')"
proof -
  from trial_result [OF assms(1), of seed "oracle" "match"] obtain buf e' where
    b: "build_candidate seed e = Some (buf, e')" and
    t: "trial oracle match seed e =
          Some (seed + 2, e',
            if prefix_matches (oracle buf) match
            then Some (Found seed (words_of_bytes buf) (words_of_bytes (oracle buf)))
            else None)"
    by blast
  have "4 \<le> length (oracle buf)" using assms(2) by simp
  then have iff: "prefix_matches (oracle buf) match \<longleftrightarrow>
      BN_lebin2bn (take 4 (oracle buf)) = unat match"
    by (rule prefix_matches_iff)
  have "search_loop oracle match seed e =
      Some (Found seed (words_of_bytes buf) (words_of_bytes (oracle buf)))"
    if "BN_lebin2bn (take 4 (oracle buf)) = unat match"
    using that iff t by (intro search_loop_found [of _ _ _ _ "seed + 2" e']) simp
  moreover have "search_loop oracle match seed e = search_loop oracle match (seed + 2) e'"
    if "BN_lebin2bn (take 4 (oracle buf)) \<noteq> unat match"
    using that iff t by (intro search_loop_next) simp
  ultimately show ?thesis using b first_word_small [of "oracle buf"] by auto
qed

theorem found_iff_first_word_witness:
  "length (state initial_engine) = N + 1 \<and> (\<forall>b. length (rsa_encrypt b) = 256)
   \<and> main 1 (ucast (load32 (rsa_encrypt (fst (the (build_candidate 1 initial_engine)))) 0))
       = Some (Found 1 (words_of_bytes (fst (the (build_candidate 1 initial_engine))))
                 (words_of_bytes (rsa_encrypt (fst (the (build_candidate 1 initial_engine))))))
   \<and> (\<exists>e'. main 1 0x100000000 = search_loop rsa_encrypt 0x100000000 3 e')"
proof -
  have len: "length (state initial_engine) = N + 1" by (simp add: initial_engine_def)
  have orc: "\<forall>b. length (rsa_encrypt b) = 256" by simp
  let ?m = "ucast (load32 (rsa_encrypt (fst (the (build_candidate 1 initial_engine)))) 0) :: u64"
  from found_iff_first_word [OF len orc, of 1 ?m] obtain buf e' where
    b: "build_candidate 1 initial_engine = Some (buf, e')" and
    c: "if BN_lebin2bn (take 4 (rsa_encrypt buf)) = unat ?m
        then search_loop rsa_encrypt ?m 1 initial_engine =
               Some (Found 1 (words_of_bytes buf) (words_of_bytes (rsa_encrypt buf)))
        else search_loop rsa_encrypt ?m 1 initial_engine = search_loop rsa_encrypt ?m (1 + 2) e'"
    by blast
  have "unat ?m = BN_lebin2bn (take 4 (rsa_encrypt buf))"
    using b by (simp add: unat_ucast_u32_u64 load32_le_value)
  with c b have one: "main 1 ?m =
      Some (Found 1 (words_of_bytes (fst (the (build_candidate 1 initial_engine))))
              (words_of_bytes (rsa_encrypt (fst (the (build_candidate 1 initial_engine))))))"
    by (simp add: main_def)
  from found_iff_first_word [OF len orc, of 1 "0x100000000"] obtain buf2 e2 where
    s: "BN_lebin2bn (take 4 (rsa_encrypt buf2)) < 2 ^ 32" and
    c2: "if BN_lebin2bn (take 4 (rsa_encrypt buf2)) = unat (0x100000000 :: u64)
        then search_loop rsa_encrypt 0x100000000 1 initial_engine =
               Some (Found 1 (words_of_bytes buf2) (words_of_bytes (rsa_encrypt buf2)))
        else search_loop rsa_encrypt 0x100000000 1 initial_engine =
               search_loop rsa_encrypt 0x100000000 (1 + 2) e2"
    by blast
  from s have "BN_lebin2bn (take 4 (rsa_encrypt buf2)) \<noteq> unat (0x100000000 :: u64)" by simp
  with c2 have "main 1 0x100000000 = search_loop rsa_encrypt 0x100000000 3 e2"
    by (simp add: main_def)
  with len orc one show ?thesis by blast
qed

text \<open>
  The claim as stated compares 8 bytes. An oracle output that starts with the bytes
  \<open>01 00 00 00 01 00 00 00\<close> has the 8-byte value \<open>0x100000001\<close>: against the target
  \<open>1\<close> the test of the loop succeeds although the 8-byte values differ, and against the
  target \<open>0x100000001\<close> it fails although they are equal.
\<close>

theorem prefix_eight_bytes_counterexample:
  "length ([1, 0, 0, 0, 1, 0, 0, 0] @ replicate 248 (0 :: u8)) = 256
   \<and> BN_lebin2bn (take 8 ([1, 0, 0, 0, 1, 0, 0, 0] @ replicate 248 0)) = unat (0x100000001 :: u64)
   \<and> \<not> prefix_matches ([1, 0, 0, 0, 1, 0, 0, 0] @ replicate 248 0) 0x100000001
   \<and> BN_lebin2bn (take 8 ([1, 0, 0, 0, 1, 0, 0, 0] @ replicate 248 0)) \<noteq> unat (1 :: u64)
   \<and> prefix_matches ([1, 0, 0, 0, 1, 0, 0, 0] @ replicate 248 0) 1"
  by (simp add: prefix_matches_def load32_def)

text \<open>
  Claim C7. Every pass through the loop body advances \<^verbatim>\<open>seed\<close> by 2, and a pass that
  finds no match continues with the loop at that seed. A run of the loop that returns at
  all returns Found, for a seed \<open>seed + 2 k\<close> whose candidate the oracle maps to an output
  that matches the target; when no such seed exists the loop never returns.
\<close>

theorem search_only_ends_found:
  assumes "length (state e) = N + 1"
  shows "(\<exists>e' r. trial oracle match seed e = Some (seed + 2, e', r)
            \<and> (r = None \<longrightarrow>
                 search_loop oracle match seed e = search_loop oracle match (seed + 2) e'))
       \<and> (\<forall>y. search_loop oracle match seed e = Some y \<longrightarrow>
            (\<exists>k buf e'. build_candidate (seed + 2 * of_nat k) initial_engine = Some (buf, e')
               \<and> prefix_matches (oracle buf) match
               \<and> y = Found (seed + 2 * of_nat k) (words_of_bytes buf)
                     (words_of_bytes (oracle buf))))
       \<and> ((\<forall>k buf e'. build_candidate (seed + 2 * of_nat k) initial_engine = Some (buf, e')
               \<longrightarrow> \<not> prefix_matches (oracle buf) match)
            \<longrightarrow> search_loop oracle match seed e = None)"
proof -
  from trial_result [OF assms, of seed "oracle" "match"] obtain e' r where
    t: "trial oracle match seed e = Some (seed + 2, e', r)" by blast
  then have "r = None \<longrightarrow>
      search_loop oracle match seed e = search_loop oracle match (seed + 2) e'"
    by (auto intro: search_loop_next)
  with t have first: "\<exists>e' r. trial oracle match seed e = Some (seed + 2, e', r)
      \<and> (r = None \<longrightarrow>
           search_loop oracle match seed e = search_loop oracle match (seed + 2) e')"
    by blast
  have second: "\<exists>k buf e'. build_candidate (seed + 2 * of_nat k) initial_engine = Some (buf, e')
       \<and> prefix_matches (oracle buf) match
       \<and> y = Found (seed + 2 * of_nat k) (words_of_bytes buf) (words_of_bytes (oracle buf))"
    if "search_loop oracle match seed e = Some y" for y
    using that assms by (rule search_loop_sound)
  have third: "search_loop oracle match seed e = None"
    if none: "\<forall>k buf e'. build_candidate (seed + 2 * of_nat k) initial_engine = Some (buf, e')
               \<longrightarrow> \<not> prefix_matches (oracle buf) match"
  proof (cases "search_loop oracle match seed e")
    case None
    then show ?thesis .
  next
    case (Some y)
    from second [OF Some] none show ?thesis by blast
  qed
  from first second third show ?thesis by blast
qed

theorem search_only_ends_found_witness:
  "length (state initial_engine) = N + 1
   \<and> (\<exists>e'. trial rsa_encrypt 0x100000000 1 initial_engine = Some (3, e', None)
         \<and> main 1 0x100000000 = search_loop rsa_encrypt 0x100000000 3 e')
   \<and> main 1 0x100000000 = None
   \<and> (\<exists>y. main 1 (ucast (load32 (rsa_encrypt (fst (the (build_candidate 1 initial_engine)))) 0))
            = Some y
         \<and> (\<exists>k buf e'. build_candidate (1 + 2 * of_nat k) initial_engine = Some (buf, e')
               \<and> prefix_matches (rsa_encrypt buf)
                    (ucast (load32 (rsa_encrypt (fst (the (build_candidate 1 initial_engine)))) 0))
               \<and> y = Found (1 + 2 * of_nat k) (words_of_bytes buf)
                     (words_of_bytes (rsa_encrypt buf))))"
proof -
  have len: "length (state initial_engine) = N + 1" by (simp add: initial_engine_def)
  let ?m = "ucast (load32 (rsa_encrypt (fst (the (build_candidate 1 initial_engine)))) 0) :: u64"
  note thm0 = search_only_ends_found [OF len, of rsa_encrypt "0x100000000" 1]
  note thm1 = search_only_ends_found [OF len, of rsa_encrypt ?m 1]
  have never: "\<not> prefix_matches (rsa_encrypt buf) 0x100000000" for buf
  proof -
    have "BN_lebin2bn (take 4 (rsa_encrypt buf)) \<noteq> unat (0x100000000 :: u64)"
      using first_word_small [of "rsa_encrypt buf"] by simp
    then show ?thesis by (simp add: prefix_matches_iff)
  qed
  from trial_result [OF len, of 1 rsa_encrypt "0x100000000"] never obtain e' where
    t': "trial rsa_encrypt 0x100000000 1 initial_engine = Some (3, e', None)"
    by auto
  with thm0 have "main 1 0x100000000 = search_loop rsa_encrypt 0x100000000 3 e'"
    by (auto simp: main_def)
  with t' have a: "\<exists>e'. trial rsa_encrypt 0x100000000 1 initial_engine = Some (3, e', None)
         \<and> main 1 0x100000000 = search_loop rsa_encrypt 0x100000000 3 e'"
    by blast
  from thm0 never have n: "main 1 0x100000000 = None"
    by (simp add: main_def)
  from trial_result [OF len, of 1 rsa_encrypt ?m] obtain buf1 e1 where
    b1: "build_candidate 1 initial_engine = Some (buf1, e1)" and
    t1: "trial rsa_encrypt ?m 1 initial_engine =
          Some (1 + 2, e1,
            if prefix_matches (rsa_encrypt buf1) ?m
            then Some (Found 1 (words_of_bytes buf1) (words_of_bytes (rsa_encrypt buf1)))
            else None)"
    by blast
  have "prefix_matches (rsa_encrypt buf1) ?m"
    using b1 by (simp add: prefix_matches_def)
  with t1 have "search_loop rsa_encrypt ?m 1 initial_engine =
      Some (Found 1 (words_of_bytes buf1) (words_of_bytes (rsa_encrypt buf1)))"
    by (intro search_loop_found [of _ _ _ _ "1 + 2" e1]) simp
  then have r: "main 1 ?m = Some (Found 1 (words_of_bytes buf1) (words_of_bytes (rsa_encrypt buf1)))"
    by (simp add: main_def)
  with thm1 have "\<exists>k buf e'. build_candidate (1 + 2 * of_nat k) initial_engine = Some (buf, e')
       \<and> prefix_matches (rsa_encrypt buf) ?m
       \<and> Found 1 (words_of_bytes buf1) (words_of_bytes (rsa_encrypt buf1))
           = Found (1 + 2 * of_nat k) (words_of_bytes buf) (words_of_bytes (rsa_encrypt buf))"
    by (simp add: main_def)
  with r have b: "\<exists>y. main 1 ?m = Some y
         \<and> (\<exists>k buf e'. build_candidate (1 + 2 * of_nat k) initial_engine = Some (buf, e')
               \<and> prefix_matches (rsa_encrypt buf) ?m
               \<and> y = Found (1 + 2 * of_nat k) (words_of_bytes buf)
                     (words_of_bytes (rsa_encrypt buf)))"
    by blast
  from len a n b show ?thesis by blast
qed

end
